theory Spec2Isabelle
  imports Complex_Main
begin

section \<open>The Throttler (namespace P.io)\<close>

text \<open>
  The class \<open>Throttler\<close> has the fields \<open>maxConcurrentTasks\<close> (initially 20),
  \<open>concurrentTasks\<close> (initially 0) and \<open>queue\<close> (initially empty). Both counters are
  JavaScript numbers that only ever hold small integers; they are modelled as \<open>int\<close>, so
  that a negative count is expressible.

  An operation handed to \<open>run\<close> is identified by its submission index (the number of
  earlier calls of \<open>run\<close>). The queue holds the closures \<open>run\<close> of the deferred
  submissions, in the model their indices. An operation is a function returning a promise:
  calling it starts it, and its promise settles later, in a callback of its own
  (\<open>.then\<close> or \<open>.catch\<close>). The only throttler of the program, \<open>requestThrottler\<close>,
  is not exported; \<open>Request.load\<close> and \<open>Img.load\<close> hand it calls of the \<open>async\<close>
  method \<open>try\<close>, which always return a promise, and nothing assigns to its
  \<open>maxConcurrentTasks\<close>. The fields \<open>submitted\<close>, \<open>running\<close>, \<open>started\<close>,
  \<open>settled\<close> and \<open>counts\<close> are not fields of the class: they record what the
  environment has done (which operations have been started and have not settled yet, in
  which order operations were started and settled) and every value that was ever written
  to \<open>concurrentTasks\<close>.
\<close>

datatype outcome = Resolved | Rejected

record Throttler =
  maxConcurrentTasks :: int
  concurrentTasks :: int
  queue :: "nat list"
  submitted :: nat
  running :: "nat list"
  started :: "nat list"
  settled :: "(nat \<times> outcome) list"
  counts :: "int list"

definition new_Throttler :: Throttler where
  "new_Throttler =
     \<lparr>maxConcurrentTasks = 20, concurrentTasks = 0, queue = [], submitted = 0,
      running = [], started = [], settled = [], counts = [0]\<rparr>"

text \<open>\<open>this.concurrentTasks++\<close> and \<open>this.concurrentTasks--\<close>.\<close>

definition increment :: "Throttler \<Rightarrow> Throttler" where
  "increment t =
     t\<lparr>concurrentTasks := concurrentTasks t + 1,
       counts := counts t @ [concurrentTasks t + 1]\<rparr>"

definition decrement :: "Throttler \<Rightarrow> Throttler" where
  "decrement t =
     t\<lparr>concurrentTasks := concurrentTasks t - 1,
       counts := counts t @ [concurrentTasks t - 1]\<rparr>"

text \<open>
  The closure \<open>run\<close> of submission \<open>k\<close>: it calls \<open>fn()\<close>, which starts the operation,
  and installs the two settlement callbacks.
\<close>

definition call_run :: "nat \<Rightarrow> Throttler \<Rightarrow> Throttler" where
  "call_run k t = t\<lparr>running := running t @ [k], started := started t @ [k]\<rparr>"

definition startNextTask :: "Throttler \<Rightarrow> Throttler" where
  "startNextTask t =
     (case queue t of
        [] \<Rightarrow> t
      | fn # rest \<Rightarrow>
          if concurrentTasks t \<ge> maxConcurrentTasks t then t
          else call_run fn (increment (t\<lparr>queue := rest\<rparr>)))"

text \<open>\<open>run(fn)\<close>: start at once when a slot is free, else push the closure.\<close>

definition run :: "Throttler \<Rightarrow> Throttler" where
  "run t =
     (let k = submitted t; t1 = t\<lparr>submitted := Suc k\<rparr> in
      if concurrentTasks t1 < maxConcurrentTasks t1 then call_run k (increment t1)
      else t1\<lparr>queue := queue t1 @ [k]\<rparr>)"

text \<open>
  The callbacks installed by the closure: \<open>.then\<close> for a resolved operation,
  \<open>.catch\<close> for a rejected one. Each decrements, calls \<open>startNextTask\<close> and then settles
  the promise that \<open>run\<close> returned.
\<close>

definition on_settled :: "nat \<Rightarrow> outcome \<Rightarrow> Throttler \<Rightarrow> Throttler" where
  "on_settled k oc t =
     (case oc of
        Resolved \<Rightarrow>
          (let t1 = decrement t; t2 = startNextTask t1
           in t2\<lparr>settled := settled t2 @ [(k, Resolved)]\<rparr>)
      | Rejected \<Rightarrow>
          (let t1 = decrement t; t2 = startNextTask t1
           in t2\<lparr>settled := settled t2 @ [(k, Rejected)]\<rparr>))"

text \<open>
  What the environment can do to a throttler: submit a further operation, or settle an
  operation that is running. A promise settles once, and only after its operation was
  started; the settlement of any other index is not an event of the program, and the
  model answers \<open>None\<close>.
\<close>

datatype event = Run | Settle nat outcome

definition step :: "event \<Rightarrow> Throttler \<Rightarrow> Throttler option" where
  "step ev t =
     (case ev of
        Run \<Rightarrow> Some (run t)
      | Settle k oc \<Rightarrow>
          if k \<in> set (running t)
          then Some (on_settled k oc (t\<lparr>running := remove1 k (running t)\<rparr>))
          else None)"

fun exec :: "event list \<Rightarrow> Throttler \<Rightarrow> Throttler option" where
  "exec [] t = Some t"
| "exec (ev # evs) t = (case step ev t of None \<Rightarrow> None | Some t' \<Rightarrow> exec evs t')"

text \<open>
  Two predicates on throttler states, used as invariants of \<open>exec\<close>. The first relates
  the counter to the operations that are really running and records the order in which
  submissions are started; the second is the order of completion when one operation runs
  at a time.
\<close>

definition throttler_inv :: "int \<Rightarrow> Throttler \<Rightarrow> bool" where
  "throttler_inv m t \<longleftrightarrow>
     maxConcurrentTasks t = m \<and>
     concurrentTasks t = int (length (running t)) \<and>
     concurrentTasks t \<le> m \<and>
     list_all (\<lambda>c. 0 \<le> c \<and> c \<le> m) (counts t) \<and>
     started t @ queue t = [0..<submitted t] \<and>
     (queue t = [] \<or> m \<le> concurrentTasks t)"

definition completion_inv :: "Throttler \<Rightarrow> bool" where
  "completion_inv t \<longleftrightarrow> map fst (settled t) @ running t = started t"

section \<open>Retry.try\<close>

text \<open>
  \<open>Retry.try(handle)\<close> is an \<open>async\<close> loop over \<open>i = 0, ..., MAX_ATTEMPST - 1\<close>. What
  the loop meets is given by three functions of the environment:
  \<^item> \<open>handle k\<close> is how the promise of the \<open>k\<close>-th call of \<open>handle()\<close> (counted from 0)
    settles: \<open>Inr v\<close> when it resolves with \<open>v\<close>, \<open>Inl err\<close> when it rejects with
    \<open>err\<close> (or when \<open>handle\<close> throws at once, which the \<open>try\<close> block catches alike);
  \<^item> \<open>aborted_at i\<close> is the value of the field \<open>this.aborted\<close> when the \<open>catch\<close>
    block of iteration \<open>i\<close> reads it (\<open>abort()\<close> sets the field to \<open>true\<close>);
  \<^item> \<open>rnd i\<close> is the number that \<open>Math.random()\<close> returns in iteration \<open>i\<close>.
  The delays are JavaScript doubles and are modelled as reals. The result records how the
  promise of \<open>try\<close> settles (\<open>lastErr\<close> is \<open>undefined\<close>, here \<open>None\<close>, until the
  first failure), how often \<open>handle\<close> was called and the delays given to
  \<open>P.utils.sleep\<close>, in order.
\<close>

record ('e, 'a) try_result =
  result :: "'e option + 'a"
  attempts :: nat
  sleeps :: "real list"

definition MAX_ATTEMPST :: nat where
  "MAX_ATTEMPST = 4"

function try_loop ::
  "(nat \<Rightarrow> 'e + 'a) \<Rightarrow> (nat \<Rightarrow> bool) \<Rightarrow> (nat \<Rightarrow> real) \<Rightarrow>
   nat \<Rightarrow> 'e option \<Rightarrow> nat \<Rightarrow> real list \<Rightarrow> ('e, 'a) try_result" where
  "try_loop handle aborted_at rnd i lastErr calls slept =
     (if i < MAX_ATTEMPST then
        (case handle calls of
           Inr v \<Rightarrow> \<lparr>result = Inr v, attempts = Suc calls, sleeps = slept\<rparr>
         | Inl err \<Rightarrow>
             if aborted_at i
             then \<lparr>result = Inl (Some err), attempts = Suc calls, sleeps = slept\<rparr>
             else
               (let retryIn = 2 ^ i * 500 * rnd i + 50
                in try_loop handle aborted_at rnd (i + 1) (Some err) (Suc calls)
                     (slept @ [retryIn])))
      else \<lparr>result = Inl lastErr, attempts = calls, sleeps = slept\<rparr>)"
  by pat_completeness auto
termination
  by (relation "measure (\<lambda>(handle, aborted_at, rnd, i, lastErr, calls, slept). MAX_ATTEMPST - i)")
     auto

declare try_loop.simps [simp del]

definition Retry_try ::
  "(nat \<Rightarrow> 'e + 'a) \<Rightarrow> (nat \<Rightarrow> bool) \<Rightarrow> (nat \<Rightarrow> real) \<Rightarrow> ('e, 'a) try_result" where
  "Retry_try handle aborted_at rnd = try_loop handle aborted_at rnd 0 None 0 []"

section \<open>Tasks and the Loader\<close>

text \<open>
  Tasks and loaders are objects that refer to each other: a loader holds the array
  \<open>_tasks\<close> of its registered tasks, a task holds the back-reference \<open>loader\<close>. The
  model keeps both kinds of object in a store indexed by references, so that a task that
  is registered twice, or with two loaders, is one object.

  The concrete task classes are \<open>Request\<close> and \<open>Img\<close> (which extend \<open>Retry\<close>) and
  \<open>Manual\<close> (\<open>PromiseTask\<close> extends \<open>Manual\<close> and inherits every method modelled
  here). One record holds the fields of all of them; \<open>cls\<close> is the class of the object
  and decides which method body a call runs. The field \<open>xhr\<close> tells whether the request
  holds an \<open>XMLHttpRequest\<close> (a transfer in flight) or \<open>null\<close>. \<open>aborts\<close> is not a
  field of the classes: it counts the calls of the object's \<open>abort()\<close> method.
\<close>

type_synonym task_ref = nat
type_synonym loader_ref = nat

datatype task_class = Request | Img | Manual

record ProgressEvent =
  lengthComputable :: bool
  total :: nat
  loaded :: nat

record Task =
  cls :: task_class
  loader :: "loader_ref option"
  aborted :: bool
  complete :: bool
  shouldIgnoreErrors :: bool
  workComputable :: bool
  totalWork :: nat
  completedWork :: nat
  status :: int
  xhr :: bool
  aborts :: nat

record Loader =
  tasks :: "task_ref list"
  aborted :: bool
  error :: bool

text \<open>
  The state of the program: the two object stores, and the calls of the hook
  \<open>onprogress\<close> made so far (the loader it was called on and the progress it was given).
  The hook of the base class does nothing and users override it; the model records the
  call. Progress values are JavaScript doubles, quotients of two small integers, and are
  modelled as reals.
\<close>

record system =
  task_store :: "task_ref \<Rightarrow> Task"
  loader_store :: "loader_ref \<Rightarrow> Loader"
  onprogress_calls :: "(loader_ref \<times> real) list"

definition update_task :: "task_ref \<Rightarrow> (Task \<Rightarrow> Task) \<Rightarrow> system \<Rightarrow> system" where
  "update_task task f s = s\<lparr>task_store := (task_store s)(task := f (task_store s task))\<rparr>"

definition update_loader :: "loader_ref \<Rightarrow> (Loader \<Rightarrow> Loader) \<Rightarrow> system \<Rightarrow> system" where
  "update_loader l f s = s\<lparr>loader_store := (loader_store s)(l := f (loader_store s l))\<rparr>"

subsection \<open>Loader: progress\<close>

text \<open>\<open>isComplete()\<close> returns the field \<open>complete\<close> in each of the three classes.\<close>

definition isComplete :: "Task \<Rightarrow> bool" where
  "isComplete t = complete t"

text \<open>The loop of \<open>calculateProgress\<close> over \<open>this._tasks\<close>, counting in \<open>finishedTasks\<close>.\<close>

fun count_finished :: "system \<Rightarrow> task_ref list \<Rightarrow> nat \<Rightarrow> nat" where
  "count_finished s [] finishedTasks = finishedTasks"
| "count_finished s (task # rest) finishedTasks =
     count_finished s rest
       (if isComplete (task_store s task) then finishedTasks + 1 else finishedTasks)"

definition calculateProgress :: "system \<Rightarrow> loader_ref \<Rightarrow> real" where
  "calculateProgress s l =
     (if Loader.aborted (loader_store s l) then 1
      else
        (let totalTasks = length (tasks (loader_store s l)) in
         if totalTasks = 0 then 0
         else real (count_finished s (tasks (loader_store s l)) 0) / real totalTasks))"

definition onprogress :: "loader_ref \<Rightarrow> real \<Rightarrow> system \<Rightarrow> system" where
  "onprogress l progress s = s\<lparr>onprogress_calls := onprogress_calls s @ [(l, progress)]\<rparr>"

definition updateProgress :: "loader_ref \<Rightarrow> system \<Rightarrow> system" where
  "updateProgress l s =
     (if error (loader_store s l) then s
      else onprogress l (calculateProgress s l) s)"

definition resetTasks :: "loader_ref \<Rightarrow> system \<Rightarrow> system" where
  "resetTasks l s = updateProgress l (update_loader l (\<lambda>this. this\<lparr>tasks := []\<rparr>) s)"

subsection \<open>AbstractTask\<close>

definition setLoader :: "task_ref \<Rightarrow> loader_ref option \<Rightarrow> system \<Rightarrow> system" where
  "setLoader task l s = update_task task (\<lambda>this. this\<lparr>loader := l\<rparr>) s"

definition updateLoaderProgress :: "task_ref \<Rightarrow> system \<Rightarrow> system" where
  "updateLoaderProgress task s =
     (case loader (task_store s task) of
        None \<Rightarrow> s
      | Some l \<Rightarrow> updateProgress l s)"

definition addTask :: "loader_ref \<Rightarrow> task_ref \<Rightarrow> system \<Rightarrow> system" where
  "addTask l task s =
     setLoader task (Some l) (update_loader l (\<lambda>this. this\<lparr>tasks := tasks this @ [task]\<rparr>) s)"

subsection \<open>Request: the handlers that \<open>_load\<close> installs\<close>

text \<open>
  A rejected attempt carries an \<open>Error\<close>; the model keeps which of the four \<open>reject\<close>
  calls of \<open>_load\<close> made it. An attempt that resolves carries \<open>xhr.response\<close>, which
  the model does not look into.
\<close>

datatype load_error = AbortedBeforeLoad | HttpError int | ErrorEvent | AbortEvent

definition acceptableResponseCodes :: "int list" where
  "acceptableResponseCodes = [0, 200]"

definition ignoreErrors :: "Task \<Rightarrow> Task" where
  "ignoreErrors this = this\<lparr>shouldIgnoreErrors := True\<rparr>"

text \<open>
  \<open>xhr.onload\<close>, for a response with status \<open>xhr_status\<close>: the new state of the request
  and the settlement of the attempt's promise (\<open>Inr ()\<close> for \<open>resolve(xhr.response)\<close>).
\<close>

definition xhr_onload :: "int \<Rightarrow> Task \<Rightarrow> Task \<times> (load_error + unit)" where
  "xhr_onload xhr_status this =
     (let this1 = this\<lparr>status := xhr_status\<rparr> in
      if xhr_status \<in> set acceptableResponseCodes \<or> shouldIgnoreErrors this1
      then (this1, Inr ())
      else (this1, Inl (HttpError xhr_status)))"

definition xhr_onerror :: "Task \<Rightarrow> Task \<times> (load_error + unit)" where
  "xhr_onerror this = (this, Inl ErrorEvent)"

definition xhr_onabort :: "Task \<Rightarrow> Task \<times> (load_error + unit)" where
  "xhr_onabort this = (this\<lparr>Task.aborted := True\<rparr>, Inl AbortEvent)"

definition Request_updateProgress :: "task_ref \<Rightarrow> ProgressEvent \<Rightarrow> system \<Rightarrow> system" where
  "Request_updateProgress task e s =
     updateLoaderProgress task
       (update_task task
          (\<lambda>this. this\<lparr>workComputable := lengthComputable e, totalWork := total e,
                         completedWork := loaded e\<rparr>) s)"

definition xhr_onloadstart :: "task_ref \<Rightarrow> ProgressEvent \<Rightarrow> system \<Rightarrow> system" where
  "xhr_onloadstart task e s = Request_updateProgress task e s"

definition xhr_onloadend :: "task_ref \<Rightarrow> ProgressEvent \<Rightarrow> system \<Rightarrow> system" where
  "xhr_onloadend task e s =
     Request_updateProgress task e
       (update_task task (\<lambda>this. this\<lparr>xhr := False, complete := True\<rparr>) s)"

text \<open>
  The start of \<open>_load\<close>: an aborted request rejects without a transfer (\<open>Some\<close> of the
  rejection), any other creates the \<open>XMLHttpRequest\<close> and sends it (the promise is
  then pending: \<open>None\<close>).
\<close>

definition Request_load :: "Task \<Rightarrow> Task \<times> (load_error + unit) option" where
  "Request_load this =
     (if Task.aborted this then (this, Some (Inl AbortedBeforeLoad))
      else (this\<lparr>xhr := True\<rparr>, None))"

subsection \<open>abort() of the task classes\<close>

text \<open>
  \<open>Retry.abort\<close> and \<open>Manual.abort\<close> set \<open>aborted\<close>. \<open>Request.abort\<close> calls
  \<open>super.abort()\<close> and then, when a transfer is in flight, \<open>this.xhr.abort()\<close>. That is
  a method of the browser: by the XMLHttpRequest standard, aborting a request that has
  been sent dispatches the events \<open>abort\<close> and \<open>loadend\<close> before it returns, both with
  nothing loaded and no known length, and so runs the handlers \<open>onabort\<close> and
  \<open>onloadend\<close> that \<open>_load\<close> installed.
\<close>

definition abort_event :: ProgressEvent where
  "abort_event = \<lparr>lengthComputable = False, total = 0, loaded = 0\<rparr>"

definition xhr_abort :: "task_ref \<Rightarrow> system \<Rightarrow> system" where
  "xhr_abort task s =
     xhr_onloadend task abort_event (update_task task (\<lambda>this. fst (xhr_onabort this)) s)"

definition Task_abort :: "task_ref \<Rightarrow> system \<Rightarrow> system" where
  "Task_abort task s =
     (let s1 = update_task task (\<lambda>this. this\<lparr>aborts := aborts this + 1\<rparr>) s in
      case cls (task_store s1 task) of
        Request \<Rightarrow>
          (let s2 = update_task task (\<lambda>this. this\<lparr>Task.aborted := True\<rparr>) s1 in
           if xhr (task_store s2 task) then xhr_abort task s2 else s2)
      | Img \<Rightarrow> update_task task (\<lambda>this. this\<lparr>Task.aborted := True\<rparr>) s1
      | Manual \<Rightarrow> update_task task (\<lambda>this. this\<lparr>Task.aborted := True\<rparr>) s1)"

subsection \<open>Completion of Manual and Img tasks\<close>

definition markComplete :: "task_ref \<Rightarrow> system \<Rightarrow> system" where
  "markComplete task s =
     updateLoaderProgress task (update_task task (\<lambda>this. this\<lparr>complete := True\<rparr>) s)"

text \<open>\<open>image.onload\<close> of \<open>Img._load\<close> (it then resolves the attempt).\<close>

definition image_onload :: "task_ref \<Rightarrow> system \<Rightarrow> system" where
  "image_onload task s =
     updateLoaderProgress task (update_task task (\<lambda>this. this\<lparr>complete := True\<rparr>) s)"

subsection \<open>Loader: abort and cleanup\<close>

definition Loader_abort :: "loader_ref \<Rightarrow> system \<Rightarrow> system" where
  "Loader_abort l s =
     (let s1 = update_loader l (\<lambda>this. this\<lparr>Loader.aborted := True\<rparr>) s
      in fold Task_abort (tasks (loader_store s1 l)) s1)"

definition cleanup :: "loader_ref \<Rightarrow> system \<Rightarrow> system" where
  "cleanup l s =
     (let s1 = fold (\<lambda>task. setLoader task None) (tasks (loader_store s l)) s
      in update_loader l (\<lambda>this. this\<lparr>tasks := []\<rparr>) s1)"

subsection \<open>Sequences of operations\<close>

text \<open>
  What can happen to a system of loaders and tasks: the public methods of \<open>Loader\<close> and
  of the tasks, and the events of the transfers and images that the tasks started. A
  method or handler exists only for objects of its class; for any other object the
  operation is not there and the state stays as it is.
\<close>

datatype op =
    AddTask loader_ref task_ref
  | ResetTasks loader_ref
  | UpdateProgress loader_ref
  | AbortLoader loader_ref
  | Cleanup loader_ref
  | SetLoader task_ref "loader_ref option"
  | AbortTask task_ref
  | MarkComplete task_ref
  | ImageOnload task_ref
  | IgnoreErrors task_ref
  | Load task_ref
  | Onloadstart task_ref ProgressEvent
  | Onload task_ref int
  | Onerror task_ref
  | Onabort task_ref
  | Onloadend task_ref ProgressEvent

definition for_class :: "task_class \<Rightarrow> task_ref \<Rightarrow> (system \<Rightarrow> system) \<Rightarrow> system \<Rightarrow> system" where
  "for_class c task f s = (if cls (task_store s task) = c then f s else s)"

fun apply_op :: "op \<Rightarrow> system \<Rightarrow> system" where
  "apply_op (AddTask l task) s = addTask l task s"
| "apply_op (ResetTasks l) s = resetTasks l s"
| "apply_op (UpdateProgress l) s = updateProgress l s"
| "apply_op (AbortLoader l) s = Loader_abort l s"
| "apply_op (Cleanup l) s = cleanup l s"
| "apply_op (SetLoader task l) s = setLoader task l s"
| "apply_op (AbortTask task) s = Task_abort task s"
| "apply_op (MarkComplete task) s = for_class Manual task (markComplete task) s"
| "apply_op (ImageOnload task) s = for_class Img task (image_onload task) s"
| "apply_op (IgnoreErrors task) s = for_class Request task (update_task task ignoreErrors) s"
| "apply_op (Load task) s =
     for_class Request task (update_task task (\<lambda>this. fst (Request_load this))) s"
| "apply_op (Onloadstart task e) s = for_class Request task (xhr_onloadstart task e) s"
| "apply_op (Onload task xhr_status) s =
     for_class Request task (update_task task (\<lambda>this. fst (xhr_onload xhr_status this))) s"
| "apply_op (Onerror task) s =
     for_class Request task (update_task task (\<lambda>this. fst (xhr_onerror this))) s"
| "apply_op (Onabort task) s =
     for_class Request task (update_task task (\<lambda>this. fst (xhr_onabort this))) s"
| "apply_op (Onloadend task e) s = for_class Request task (xhr_onloadend task e) s"

fun apply_ops :: "op list \<Rightarrow> system \<Rightarrow> system" where
  "apply_ops [] s = s"
| "apply_ops (x # xs) s = apply_ops xs (apply_op x s)"

text \<open>The operations that replace or extend the array \<open>_tasks\<close> of a loader.\<close>

fun changes_tasks :: "op \<Rightarrow> bool" where
  "changes_tasks (AddTask l task) = True"
| "changes_tasks (ResetTasks l) = True"
| "changes_tasks (Cleanup l) = True"
| "changes_tasks x = False"

subsection \<open>Objects as their constructors leave them\<close>

text \<open>
  The field initialisers of the classes: a new task of class \<open>c\<close>, a new loader, and a
  system in which no method has been called yet (\<open>classes\<close> gives the class of each
  task object).
\<close>

definition new_Task :: "task_class \<Rightarrow> Task" where
  "new_Task c =
     \<lparr>cls = c, loader = None, aborted = False, complete = False, shouldIgnoreErrors = False,
      workComputable = False, totalWork = 0, completedWork = 0, status = 0, xhr = False,
      aborts = 0\<rparr>"

definition new_Loader :: Loader where
  "new_Loader = \<lparr>tasks = [], aborted = False, error = False\<rparr>"

definition initial_system :: "(task_ref \<Rightarrow> task_class) \<Rightarrow> system" where
  "initial_system classes =
     \<lparr>task_store = (\<lambda>task. new_Task (classes task)), loader_store = (\<lambda>l. new_Loader),
      onprogress_calls = []\<rparr>"

subsection \<open>An example system\<close>

text \<open>
  A state used to run the operations on concrete objects: task 0 is a Request, task 1 an
  Img, every other task a Manual. Loader 0 registers the tasks 0 to 3; then the request
  starts its transfer, the image loads and task 3 is marked complete.
\<close>

definition example_classes :: "task_ref \<Rightarrow> task_class" where
  "example_classes task = (if task = 0 then Request else if task = 1 then Img else Manual)"

definition example_system :: system where
  "example_system =
     apply_ops
       [AddTask 0 0, AddTask 0 1, AddTask 0 2, AddTask 0 3, Load 0, ImageOnload 1, MarkComplete 3]
       (initial_system example_classes)"

subsection \<open>What no operation undoes\<close>

text \<open>
  No method or handler changes the class of an object, sets \<open>complete\<close>, \<open>aborted\<close> or
  \<open>shouldIgnoreErrors\<close> back to \<open>false\<close>: the relation \<open>evolves\<close> between an earlier
  and a later state says so, and is used as an invariant of \<open>apply_ops\<close>.
\<close>

definition task_evolves :: "Task \<Rightarrow> Task \<Rightarrow> bool" where
  "task_evolves t t' \<longleftrightarrow>
     cls t' = cls t \<and> (complete t \<longrightarrow> complete t') \<and> (Task.aborted t \<longrightarrow> Task.aborted t') \<and>
     (shouldIgnoreErrors t \<longrightarrow> shouldIgnoreErrors t')"

definition evolves :: "system \<Rightarrow> system \<Rightarrow> bool" where
  "evolves s s' \<longleftrightarrow>
     (\<forall>task. task_evolves (task_store s task) (task_store s' task)) \<and>
     (\<forall>l. Loader.aborted (loader_store s l) \<longrightarrow> Loader.aborted (loader_store s' l))"

section \<open>Properties of the Throttler\<close>

lemma throttler_inv_new:
  "0 \<le> m \<Longrightarrow> throttler_inv m (new_Throttler\<lparr>maxConcurrentTasks := m\<rparr>)"
  by (simp add: throttler_inv_def new_Throttler_def)

lemma throttler_inv_run: "throttler_inv m t \<Longrightarrow> throttler_inv m (run t)"
  by (auto simp: throttler_inv_def run_def Let_def call_run_def increment_def)

lemma throttler_inv_on_settled:
  assumes "throttler_inv m t" and "k \<in> set (running t)"
  shows "throttler_inv m (on_settled k oc (t\<lparr>running := remove1 k (running t)\<rparr>))"
proof -
  from assms(2) obtain n where "length (running t) = Suc n"
    by (cases "running t") auto
  with assms show ?thesis
    by (cases oc; cases "queue t")
       (auto simp: throttler_inv_def on_settled_def Let_def startNextTask_def decrement_def
          call_run_def increment_def length_remove1 upt_eq_Cons_conv append_eq_Cons_conv)
qed

lemma throttler_inv_step:
  "throttler_inv m t \<Longrightarrow> step ev t = Some t' \<Longrightarrow> throttler_inv m t'"
  by (cases ev) (auto simp: step_def throttler_inv_run throttler_inv_on_settled split: if_splits)

lemma throttler_inv_exec:
  "throttler_inv m t \<Longrightarrow> exec evs t = Some t' \<Longrightarrow> throttler_inv m t'"
  by (induction evs arbitrary: t) (auto split: option.splits dest: throttler_inv_step)

lemma throttler_inv_reachable:
  assumes "0 \<le> m" and "exec evs (new_Throttler\<lparr>maxConcurrentTasks := m\<rparr>) = Some t"
  shows "throttler_inv m t"
  using throttler_inv_exec [OF throttler_inv_new [OF assms(1)] assms(2)] .

text \<open>
  Claim C1. Start from a new throttler whose limit is any \<open>m \<ge> 0\<close> (the shared
  \<open>requestThrottler\<close> keeps the default, \<open>m = 20\<close>), and let any sequence of submissions
  and settlements happen, each operation resolving or rejecting as it likes. Then
  \<open>concurrentTasks\<close> is the number of operations that are running, it lies between 0 and
  \<open>maxConcurrentTasks\<close>, and so did every value that was written to it on the way
  (\<open>counts\<close>); the limit itself is still \<open>m\<close>.
\<close>

theorem throttler_count_bounded:
  assumes "0 \<le> m" and "exec evs (new_Throttler\<lparr>maxConcurrentTasks := m\<rparr>) = Some t"
  shows "0 \<le> concurrentTasks t \<and> concurrentTasks t \<le> maxConcurrentTasks t \<and>
         maxConcurrentTasks t = m \<and>
         concurrentTasks t = int (length (running t)) \<and>
         list_all (\<lambda>c. 0 \<le> c \<and> c \<le> maxConcurrentTasks t) (counts t)"
  using throttler_inv_reachable [OF assms] by (simp add: throttler_inv_def)

text \<open>
  The shared throttler after a burst of 22 submissions, of which operation 3 then rejects
  and operation 0 resolves: the count went up to 20, never further, and the two queued
  operations took the freed slots.
\<close>

theorem throttler_count_bounded_witness:
  "exec (replicate 22 Run @ [Settle 3 Rejected, Settle 0 Resolved]) new_Throttler =
     Some \<lparr>maxConcurrentTasks = 20, concurrentTasks = 20, queue = [], submitted = 22,
       running = [1, 2, 4, 5, 6, 7, 8, 9, 10, 11, 12, 13, 14, 15, 16, 17, 18, 19, 20, 21],
       started = [0, 1, 2, 3, 4, 5, 6, 7, 8, 9, 10, 11, 12, 13, 14, 15, 16, 17, 18, 19,
         20, 21],
       settled = [(3, Rejected), (0, Resolved)],
       counts = [0, 1, 2, 3, 4, 5, 6, 7, 8, 9, 10, 11, 12, 13, 14, 15, 16, 17, 18, 19, 20,
         19, 20, 19, 20]\<rparr> \<and>
   list_all (\<lambda>c. 0 \<le> c \<and> c \<le> 20)
     [0, 1, 2, 3, 4, 5, 6, 7, 8, 9, 10, 11, 12, 13, 14, 15, 16, 17, 18, 19, 20,
      19, 20, 19, 20 :: int]"
proof -
  have m: "(0::int) \<le> 20" by simp
  have e: "exec (replicate 22 Run @ [Settle 3 Rejected, Settle 0 Resolved])
             (new_Throttler\<lparr>maxConcurrentTasks := 20\<rparr>) =
     Some \<lparr>maxConcurrentTasks = 20, concurrentTasks = 20, queue = [], submitted = 22,
       running = [1, 2, 4, 5, 6, 7, 8, 9, 10, 11, 12, 13, 14, 15, 16, 17, 18, 19, 20, 21],
       started = [0, 1, 2, 3, 4, 5, 6, 7, 8, 9, 10, 11, 12, 13, 14, 15, 16, 17, 18, 19,
         20, 21],
       settled = [(3, Rejected), (0, Resolved)],
       counts = [0, 1, 2, 3, 4, 5, 6, 7, 8, 9, 10, 11, 12, 13, 14, 15, 16, 17, 18, 19, 20,
         19, 20, 19, 20]\<rparr>"
    by code_simp
  have n: "new_Throttler\<lparr>maxConcurrentTasks := 20\<rparr> = new_Throttler"
    by (simp add: new_Throttler_def)
  from throttler_count_bounded [OF m e] e show ?thesis
    by (simp add: n)
qed

lemma completion_inv_new: "completion_inv (new_Throttler\<lparr>maxConcurrentTasks := m\<rparr>)"
  by (simp add: completion_inv_def new_Throttler_def)

lemma completion_inv_run:
  "throttler_inv 1 t \<Longrightarrow> completion_inv t \<Longrightarrow> completion_inv (run t)"
  by (auto simp: throttler_inv_def completion_inv_def run_def Let_def call_run_def
        increment_def)

lemma completion_inv_on_settled:
  assumes "throttler_inv 1 t" and "completion_inv t" and "k \<in> set (running t)"
  shows "completion_inv (on_settled k oc (t\<lparr>running := remove1 k (running t)\<rparr>))"
proof -
  from assms(1) have "length (running t) \<le> 1"
    by (simp add: throttler_inv_def)
  with assms(3) have "running t = [k]"
    by (cases "running t") auto
  with assms show ?thesis
    by (cases oc; cases "queue t")
       (auto simp: throttler_inv_def completion_inv_def on_settled_def Let_def
          startNextTask_def decrement_def call_run_def increment_def)
qed

lemma completion_inv_step:
  "throttler_inv 1 t \<Longrightarrow> completion_inv t \<Longrightarrow> step ev t = Some t' \<Longrightarrow> completion_inv t'"
  by (cases ev)
     (auto simp: step_def completion_inv_run completion_inv_on_settled split: if_splits)

lemma completion_inv_exec:
  "throttler_inv 1 t \<Longrightarrow> completion_inv t \<Longrightarrow> exec evs t = Some t' \<Longrightarrow> completion_inv t'"
proof (induction evs arbitrary: t)
  case Nil
  then show ?case by simp
next
  case (Cons ev evs)
  from Cons.prems(3) obtain t1 where s: "step ev t = Some t1" and e: "exec evs t1 = Some t'"
    by (auto split: option.splits)
  from Cons.prems(1) s have "throttler_inv 1 t1"
    by (rule throttler_inv_step)
  moreover from Cons.prems(1,2) s have "completion_inv t1"
    by (rule completion_inv_step)
  ultimately show ?case
    using e by (rule Cons.IH)
qed

lemma prefix_of_upt: "xs @ ys = [0..<n] \<Longrightarrow> xs = [0..<length xs]"
  by (metis append_eq_conv_conj take_upt add_0 length_take length_upt min.absorb_iff2
        diff_zero)

lemma completion_order:
  assumes "exec evs (new_Throttler\<lparr>maxConcurrentTasks := 1\<rparr>) = Some t"
  shows "map fst (settled t) = [0..<length (settled t)]"
proof -
  have i: "throttler_inv 1 (new_Throttler\<lparr>maxConcurrentTasks := 1\<rparr>)"
    by (rule throttler_inv_new) simp
  from completion_inv_exec [OF i completion_inv_new assms]
  have c: "map fst (settled t) @ running t = started t"
    by (simp add: completion_inv_def)
  from throttler_inv_exec [OF i assms]
  have "started t @ queue t = [0..<submitted t]"
    by (simp add: throttler_inv_def)
  with c have "map fst (settled t) @ (running t @ queue t) = [0..<submitted t]"
    by (metis append.assoc)
  from prefix_of_upt [OF this] show ?thesis
    by simp
qed

lemma settle_effect:
  assumes "throttler_inv m t" and "k \<in> set (running t)"
  shows "\<exists>t'. step (Settle k oc) t = Some t' \<and>
           settled t' = settled t @ [(k, oc)] \<and>
           (case queue t of
              [] \<Rightarrow> concurrentTasks t' = concurrentTasks t - 1 \<and> queue t' = [] \<and>
                    started t' = started t \<and> running t' = remove1 k (running t) \<and>
                    counts t' = counts t @ [concurrentTasks t - 1]
            | fn # rest \<Rightarrow> concurrentTasks t' = concurrentTasks t \<and> queue t' = rest \<and>
                    started t' = started t @ [fn] \<and>
                    running t' = remove1 k (running t) @ [fn] \<and>
                    counts t' = counts t @ [concurrentTasks t - 1, concurrentTasks t])"
proof -
  from assms(2) obtain n where "length (running t) = Suc n"
    by (cases "running t") auto
  with assms show ?thesis
    by (cases oc; cases "queue t")
       (auto simp: step_def throttler_inv_def on_settled_def Let_def startNextTask_def
          decrement_def call_run_def increment_def)
qed

text \<open>
  Claim C6. In every state \<open>t\<close> that a throttler with limit \<open>m \<ge> 0\<close> reaches:
  \<^item> the operations started so far, followed by the queue, are the submissions
    \<open>0, 1, ..., submitted - 1\<close> in their order: operations are started in the order of
    submission, and the queue holds the rest in that order;
  \<^item> when \<open>m = 1\<close>, the \<open>n\<close> operations that have completed are the submissions
    \<open>0, ..., n - 1\<close>, completed in that order;
  \<^item> when a running operation \<open>k\<close> settles, resolved or rejected alike, the callback
    runs (\<open>step\<close> is not \<open>None\<close>), writes the count minus one and then, if the queue is
    not empty, takes its head \<open>fn\<close>, writes the count plus one again and starts \<open>fn\<close>;
    with an empty queue the count stays decremented. So a rejected operation frees its
    slot as a resolved one does.
\<close>

theorem throttler_settle_starts_next_fifo:
  assumes "0 \<le> m" and "exec evs (new_Throttler\<lparr>maxConcurrentTasks := m\<rparr>) = Some t"
  shows "started t @ queue t = [0..<submitted t] \<and>
         (m = 1 \<longrightarrow> map fst (settled t) = [0..<length (settled t)]) \<and>
         (\<forall>k oc. k \<in> set (running t) \<longrightarrow>
            (\<exists>t'. step (Settle k oc) t = Some t' \<and>
               settled t' = settled t @ [(k, oc)] \<and>
               (case queue t of
                  [] \<Rightarrow> concurrentTasks t' = concurrentTasks t - 1 \<and> queue t' = [] \<and>
                    started t' = started t \<and> running t' = remove1 k (running t) \<and>
                    counts t' = counts t @ [concurrentTasks t - 1]
                | fn # rest \<Rightarrow> concurrentTasks t' = concurrentTasks t \<and> queue t' = rest \<and>
                    started t' = started t @ [fn] \<and>
                    running t' = remove1 k (running t) @ [fn] \<and>
                    counts t' = counts t @ [concurrentTasks t - 1, concurrentTasks t])))"
proof -
  have i: "throttler_inv m t"
    using assms by (rule throttler_inv_reachable)
  have "started t @ queue t = [0..<submitted t]"
    using i by (simp add: throttler_inv_def)
  moreover have "m = 1 \<longrightarrow> map fst (settled t) = [0..<length (settled t)]"
    using assms(2) completion_order by blast
  moreover have "\<forall>k oc. k \<in> set (running t) \<longrightarrow>
            (\<exists>t'. step (Settle k oc) t = Some t' \<and>
               settled t' = settled t @ [(k, oc)] \<and>
               (case queue t of
                  [] \<Rightarrow> concurrentTasks t' = concurrentTasks t - 1 \<and> queue t' = [] \<and>
                    started t' = started t \<and> running t' = remove1 k (running t) \<and>
                    counts t' = counts t @ [concurrentTasks t - 1]
                | fn # rest \<Rightarrow> concurrentTasks t' = concurrentTasks t \<and> queue t' = rest \<and>
                    started t' = started t @ [fn] \<and>
                    running t' = remove1 k (running t) @ [fn] \<and>
                    counts t' = counts t @ [concurrentTasks t - 1, concurrentTasks t]))"
    using settle_effect [OF i] by blast
  ultimately show ?thesis
    by blast
qed

text \<open>
  One operation at a time, three submissions: operation 0 rejects and operation 1 is
  started from the queue; when it rejects too, operation 2 is started.
\<close>

theorem throttler_settle_starts_next_fifo_witness:
  "exec [Run, Run, Run, Settle 0 Rejected] (new_Throttler\<lparr>maxConcurrentTasks := 1\<rparr>) =
     Some \<lparr>maxConcurrentTasks = 1, concurrentTasks = 1, queue = [2], submitted = 3,
       running = [1], started = [0, 1], settled = [(0, Rejected)],
       counts = [0, 1, 0, 1]\<rparr> \<and>
   (1::nat) \<in> set [1] \<and>
   step (Settle 1 Rejected)
     \<lparr>maxConcurrentTasks = 1, concurrentTasks = 1, queue = [2], submitted = 3,
       running = [1], started = [0, 1], settled = [(0, Rejected)],
       counts = [0, 1, 0, 1]\<rparr> =
     Some \<lparr>maxConcurrentTasks = 1, concurrentTasks = 1, queue = [], submitted = 3,
       running = [2], started = [0, 1, 2], settled = [(0, Rejected), (1, Rejected)],
       counts = [0, 1, 0, 1, 0, 1]\<rparr>"
proof -
  have m: "(0::int) \<le> 1" by simp
  have e: "exec [Run, Run, Run, Settle 0 Rejected] (new_Throttler\<lparr>maxConcurrentTasks := 1\<rparr>) =
     Some \<lparr>maxConcurrentTasks = 1, concurrentTasks = 1, queue = [2], submitted = 3,
       running = [1], started = [0, 1], settled = [(0, Rejected)],
       counts = [0, 1, 0, 1]\<rparr>"
    by code_simp
  have s: "step (Settle 1 Rejected)
     \<lparr>maxConcurrentTasks = 1, concurrentTasks = 1, queue = [2], submitted = 3,
       running = [1], started = [0, 1], settled = [(0, Rejected)],
       counts = [0, 1, 0, 1]\<rparr> =
     Some \<lparr>maxConcurrentTasks = 1, concurrentTasks = 1, queue = [], submitted = 3,
       running = [2], started = [0, 1, 2], settled = [(0, Rejected), (1, Rejected)],
       counts = [0, 1, 0, 1, 0, 1]\<rparr>"
    by code_simp
  from throttler_settle_starts_next_fifo [OF m e] e s show ?thesis
    by simp
qed

section \<open>Properties of Retry.try\<close>

lemma try_loop_attempts:
  "attempts (try_loop h ab rnd i l c sl) \<le> c + (MAX_ATTEMPST - i)"
proof (induction h ab rnd i l c sl rule: try_loop.induct)
  case (1 h ab rnd i l c sl)
  show ?case
  proof (cases "i < MAX_ATTEMPST")
    case False
    then show ?thesis by (simp add: try_loop.simps [of h ab rnd i])
  next
    case True
    show ?thesis
    proof (cases "h c")
      case (Inr v)
      with True show ?thesis by (simp add: try_loop.simps [of h ab rnd i])
    next
      case (Inl e)
      show ?thesis
      proof (cases "ab i")
        case True
        with Inl \<open>i < MAX_ATTEMPST\<close> show ?thesis by (simp add: try_loop.simps [of h ab rnd i])
      next
        case False
        from "1.IH" [OF \<open>i < MAX_ATTEMPST\<close> Inl False refl]
        have "attempts (try_loop h ab rnd (i + 1) (Some e) (Suc c) (sl @ [2 ^ i * 500 * rnd i + 50]))
                \<le> Suc c + (MAX_ATTEMPST - (i + 1))" .
        with Inl False \<open>i < MAX_ATTEMPST\<close> show ?thesis
          by (simp add: try_loop.simps [of h ab rnd i])
      qed
    qed
  qed
qed

lemma try_loop_failures:
  assumes "i + k \<le> MAX_ATTEMPST"
    and "\<forall>j<k. (\<exists>e. h (c + j) = Inl e) \<and> \<not> ab (i + j)"
  shows "try_loop h ab rnd i l c sl =
         try_loop h ab rnd (i + k) (if k = 0 then l else Some (projl (h (c + k - 1)))) (c + k)
           (sl @ map (\<lambda>j. 2 ^ j * 500 * rnd j + 50) [i..<i + k])"
  using assms
proof (induction k arbitrary: i l c sl)
  case 0
  then show ?case by simp
next
  case (Suc k)
  from Suc.prems(2) obtain e where e: "h c = Inl e" and a: "\<not> ab i"
    by (metis add.right_neutral zero_less_Suc)
  from Suc.prems(1) have lt: "i < MAX_ATTEMPST" by simp
  have step: "try_loop h ab rnd i l c sl =
        try_loop h ab rnd (Suc i) (Some e) (Suc c) (sl @ [2 ^ i * 500 * rnd i + 50])"
    using e a lt by (simp add: try_loop.simps [of h ab rnd i])
  have p1: "Suc i + k \<le> MAX_ATTEMPST" using Suc.prems(1) by simp
  have p2: "\<forall>j<k. (\<exists>e. h (Suc c + j) = Inl e) \<and> \<not> ab (Suc i + j)"
    using Suc.prems(2) by (metis add_Suc_shift Suc_less_eq)
  have l: "(if k = 0 then Some e else Some (projl (h (Suc c + k - 1)))) = Some (projl (h (c + Suc k - 1)))"
    using e by (cases k) auto
  have m: "[i..<i + Suc k] = i # [Suc i..<Suc i + k]"
    by (simp add: upt_conv_Cons)
  show ?case
    unfolding step Suc.IH [OF p1 p2] l m by simp
qed

lemma Retry_try_success:
  assumes "k < MAX_ATTEMPST" and "\<forall>j<k. (\<exists>e. h j = Inl e) \<and> \<not> ab j" and "h k = Inr v"
  shows "Retry_try h ab rnd =
           \<lparr>result = Inr v, attempts = Suc k,
            sleeps = map (\<lambda>i. 2 ^ i * 500 * rnd i + 50) [0..<k]\<rparr>"
proof -
  have "try_loop h ab rnd 0 None 0 [] =
        try_loop h ab rnd (0 + k) (if k = 0 then None else Some (projl (h (0 + k - 1)))) (0 + k)
          ([] @ map (\<lambda>j. 2 ^ j * 500 * rnd j + 50) [0..<0 + k])"
    by (rule try_loop_failures) (use assms in simp_all)
  then show ?thesis
    using assms(1,3) by (simp add: Retry_try_def try_loop.simps [of h ab rnd k])
qed

lemma Retry_try_aborted:
  assumes "k < MAX_ATTEMPST" and "\<forall>j<k. (\<exists>e. h j = Inl e) \<and> \<not> ab j"
    and "h k = Inl err" and "ab k"
  shows "Retry_try h ab rnd =
           \<lparr>result = Inl (Some err), attempts = Suc k,
            sleeps = map (\<lambda>i. 2 ^ i * 500 * rnd i + 50) [0..<k]\<rparr>"
proof -
  have "try_loop h ab rnd 0 None 0 [] =
        try_loop h ab rnd (0 + k) (if k = 0 then None else Some (projl (h (0 + k - 1)))) (0 + k)
          ([] @ map (\<lambda>j. 2 ^ j * 500 * rnd j + 50) [0..<0 + k])"
    by (rule try_loop_failures) (use assms in simp_all)
  then show ?thesis
    using assms(1,3,4) by (simp add: Retry_try_def try_loop.simps [of h ab rnd k])
qed

lemma Retry_try_exhausted:
  assumes "\<forall>j<MAX_ATTEMPST. (\<exists>e. h j = Inl e) \<and> \<not> ab j"
  shows "Retry_try h ab rnd =
           \<lparr>result = Inl (Some (projl (h 3))), attempts = 4,
            sleeps = map (\<lambda>i. 2 ^ i * 500 * rnd i + 50) [0..<4]\<rparr>"
proof -
  have "try_loop h ab rnd 0 None 0 [] =
        try_loop h ab rnd (0 + MAX_ATTEMPST)
          (if MAX_ATTEMPST = 0 then None else Some (projl (h (0 + MAX_ATTEMPST - 1))))
          (0 + MAX_ATTEMPST)
          ([] @ map (\<lambda>j. 2 ^ j * 500 * rnd j + 50) [0..<0 + MAX_ATTEMPST])"
    by (rule try_loop_failures) (use assms in simp_all)
  then show ?thesis
    by (simp add: Retry_try_def try_loop.simps [of h ab rnd 4] MAX_ATTEMPST_def)
qed

lemma backoff_at_least_50:
  assumes "\<forall>i. 0 \<le> rnd i \<and> rnd i < 1"
  shows "\<forall>d \<in> set (map (\<lambda>i. 2 ^ i * 500 * rnd i + 50) [0..<k]). (50::real) \<le> d"
  using assms by simp

text \<open>
  Claim C2. \<open>try\<close> calls \<open>handle\<close> at most 4 times. If call \<open>k\<close> (counted from 0,
  \<open>k < 4\<close>) is the first that resolves, all earlier calls having failed with the wrapper
  not aborted, then \<open>try\<close> resolves with the value of call \<open>k\<close>, after \<open>k + 1\<close> calls
  and exactly \<open>k\<close> sleeps; the sleep that follows the failure of attempt \<open>i\<close> lasts
  \<open>2 ^ i * 500 * rnd i + 50\<close> milliseconds, which is at least 50 since \<open>Math.random()\<close>
  lies in \<open>[0, 1)\<close>. If the first four calls all fail with the wrapper not aborted,
  \<open>try\<close> rejects with the error of the fourth call (index 3), after exactly 4 calls.
\<close>

theorem retry_try_attempts_and_backoff:
  "attempts (Retry_try h ab rnd) \<le> 4 \<and>
   (\<forall>k v. k < 4 \<and> (\<forall>j<k. (\<exists>e. h j = Inl e) \<and> \<not> ab j) \<and> h k = Inr v \<longrightarrow>
      result (Retry_try h ab rnd) = Inr v \<and>
      attempts (Retry_try h ab rnd) = k + 1 \<and>
      length (sleeps (Retry_try h ab rnd)) = k \<and>
      sleeps (Retry_try h ab rnd) = map (\<lambda>i. 2 ^ i * 500 * rnd i + 50) [0..<k] \<and>
      ((\<forall>i. 0 \<le> rnd i \<and> rnd i < 1) \<longrightarrow> (\<forall>d \<in> set (sleeps (Retry_try h ab rnd)). 50 \<le> d))) \<and>
   ((\<forall>j<4. (\<exists>e. h j = Inl e) \<and> \<not> ab j) \<longrightarrow>
      (\<exists>e. h 3 = Inl e \<and> result (Retry_try h ab rnd) = Inl (Some e)) \<and>
      attempts (Retry_try h ab rnd) = 4)"
proof (intro conjI allI impI)
  show "attempts (Retry_try h ab rnd) \<le> 4"
    using try_loop_attempts [of h ab rnd 0 None 0 "[]"]
    by (simp add: Retry_try_def MAX_ATTEMPST_def)
next
  fix k v
  assume a: "k < 4 \<and> (\<forall>j<k. (\<exists>e. h j = Inl e) \<and> \<not> ab j) \<and> h k = Inr v"
  then have r: "Retry_try h ab rnd =
           \<lparr>result = Inr v, attempts = Suc k,
            sleeps = map (\<lambda>i. 2 ^ i * 500 * rnd i + 50) [0..<k]\<rparr>"
    by (intro Retry_try_success) (simp_all add: MAX_ATTEMPST_def)
  show "result (Retry_try h ab rnd) = Inr v" by (simp add: r)
  show "attempts (Retry_try h ab rnd) = k + 1" by (simp add: r)
  show "length (sleeps (Retry_try h ab rnd)) = k" by (simp add: r)
  show "sleeps (Retry_try h ab rnd) = map (\<lambda>i. 2 ^ i * 500 * rnd i + 50) [0..<k]"
    by (simp add: r)
  assume "\<forall>i. 0 \<le> rnd i \<and> rnd i < 1"
  then show "\<forall>d \<in> set (sleeps (Retry_try h ab rnd)). 50 \<le> d"
    unfolding r by simp
next
  assume a: "\<forall>j<4. (\<exists>e. h j = Inl e) \<and> \<not> ab j"
  then have r: "Retry_try h ab rnd =
           \<lparr>result = Inl (Some (projl (h 3))), attempts = 4,
            sleeps = map (\<lambda>i. 2 ^ i * 500 * rnd i + 50) [0..<4]\<rparr>"
    by (intro Retry_try_exhausted) (simp add: MAX_ATTEMPST_def)
  from a have "(\<exists>e. h 3 = Inl e) \<and> \<not> ab 3"
    by (elim allE [of _ 3]) simp
  then obtain e where "h 3 = Inl e" by blast
  then show "\<exists>e. h 3 = Inl e \<and> result (Retry_try h ab rnd) = Inl (Some e)"
    by (simp add: r)
  show "attempts (Retry_try h ab rnd) = 4" by (simp add: r)
qed

text \<open>
  Three failures and then the value 42, with \<open>Math.random()\<close> returning one half each
  time: three sleeps of 300, 550 and 1050 milliseconds. And a \<open>handle\<close> that always
  fails, call \<open>k\<close> with the error \<open>k\<close>: the error of the fourth call comes out.
\<close>

theorem retry_try_attempts_and_backoff_witness:
  "Retry_try (\<lambda>k. if k < 3 then Inl k else Inr (42::nat)) (\<lambda>i. False) (\<lambda>i. 1 / 2) =
     \<lparr>result = Inr 42, attempts = 4, sleeps = [300, 550, 1050]\<rparr> \<and>
   (3::nat) < 4 \<and>
   list_all (\<lambda>d. 50 \<le> d) [300, 550, 1050 :: real] \<and>
   Retry_try (\<lambda>k. Inl k :: nat + nat) (\<lambda>i. False) (\<lambda>i. 1 / 2) =
     \<lparr>result = Inl (Some 3), attempts = 4, sleeps = [300, 550, 1050, 2050]\<rparr>"
proof -
  let ?H = "\<lambda>k::nat. if k < 3 then Inl k else (Inr 42 :: nat + nat)"
  let ?F = "\<lambda>k::nat. Inl k :: nat + nat"
  let ?A = "\<lambda>i::nat. False"
  let ?R = "\<lambda>i::nat. 1 / 2 :: real"
  have u3: "[0..<3] = [0, 1, 2 :: nat]" by code_simp
  have u4: "[0..<4] = [0, 1, 2, 3 :: nat]" by code_simp
  have h: "(3::nat) < 4 \<and> (\<forall>j<3. (\<exists>e. ?H j = Inl e) \<and> \<not> ?A j) \<and> ?H 3 = Inr 42"
    by simp
  have g: "\<forall>j<4. (\<exists>e. ?F j = Inl e) \<and> \<not> ?A j"
    by simp
  have r: "\<forall>i. 0 \<le> ?R i \<and> ?R i < 1"
    by simp
  note t = retry_try_attempts_and_backoff [of ?H ?A ?R]
  note c = t [THEN conjunct2, THEN conjunct1, THEN spec, THEN spec, THEN mp, OF h]
  note d = retry_try_attempts_and_backoff [of ?F ?A ?R, THEN conjunct2, THEN conjunct2, THEN mp, OF g]
  have s3: "sleeps (Retry_try ?H ?A ?R) = [300, 550, 1050]"
    using c by (simp add: u3)
  have b: "\<forall>d \<in> set (sleeps (Retry_try ?H ?A ?R)). 50 \<le> d"
    using c r by blast
  have e: "Retry_try ?H ?A ?R = \<lparr>result = Inr 42, attempts = 4, sleeps = [300, 550, 1050]\<rparr>"
    using c s3 by (cases "Retry_try ?H ?A ?R") simp
  have f: "Retry_try ?F ?A ?R =
     \<lparr>result = Inl (Some 3), attempts = 4, sleeps = [300, 550, 1050, 2050]\<rparr>"
    using Retry_try_exhausted [of ?F ?A ?R] g
    by (simp add: MAX_ATTEMPST_def u4)
  from e f b d show ?thesis
    by simp
qed

section \<open>Properties of tasks and the Loader\<close>

lemma update_task_simps [simp]:
  "task_store (update_task task f s) = (task_store s)(task := f (task_store s task))"
  "loader_store (update_task task f s) = loader_store s"
  "onprogress_calls (update_task task f s) = onprogress_calls s"
  by (simp_all add: update_task_def)

lemma update_loader_simps [simp]:
  "task_store (update_loader l f s) = task_store s"
  "loader_store (update_loader l f s) = (loader_store s)(l := f (loader_store s l))"
  "onprogress_calls (update_loader l f s) = onprogress_calls s"
  by (simp_all add: update_loader_def)

lemma count_finished_filter:
  "count_finished s ts n = n + length (filter (\<lambda>task. isComplete (task_store s task)) ts)"
  by (induction ts arbitrary: n) simp_all

lemma count_finished_le: "count_finished s ts 0 \<le> length ts"
  by (simp add: count_finished_filter)

lemma calculateProgress_le_1: "calculateProgress s l \<le> 1"
  using count_finished_le [of s "tasks (loader_store s l)"]
  by (simp add: calculateProgress_def Let_def divide_le_eq)

lemma calculateProgress_ge_0: "0 \<le> calculateProgress s l"
  by (simp add: calculateProgress_def Let_def)

lemma updateProgress_simps [simp]:
  "task_store (updateProgress l s) = task_store s"
  "loader_store (updateProgress l s) = loader_store s"
  "onprogress_calls (updateProgress l s) =
     onprogress_calls s @ (if error (loader_store s l) then [] else [(l, calculateProgress s l)])"
  by (simp_all add: updateProgress_def onprogress_def)

lemma updateLoaderProgress_simps [simp]:
  "task_store (updateLoaderProgress task s) = task_store s"
  "loader_store (updateLoaderProgress task s) = loader_store s"
  by (simp_all add: updateLoaderProgress_def split: option.splits)

lemma updateLoaderProgress_calls:
  "onprogress_calls (updateLoaderProgress task s) =
     onprogress_calls s @
       (case loader (task_store s task) of
          None \<Rightarrow> []
        | Some l \<Rightarrow> if error (loader_store s l) then [] else [(l, calculateProgress s l)])"
  by (simp add: updateLoaderProgress_def split: option.splits)

lemma setLoader_simps [simp]:
  "task_store (setLoader task l s) = (task_store s)(task := (task_store s task)\<lparr>loader := l\<rparr>)"
  "loader_store (setLoader task l s) = loader_store s"
  "onprogress_calls (setLoader task l s) = onprogress_calls s"
  by (simp_all add: setLoader_def)

lemma Request_updateProgress_simps [simp]:
  "task_store (Request_updateProgress task e s) =
     (task_store s)(task := (task_store s task)
        \<lparr>workComputable := lengthComputable e, totalWork := total e, completedWork := loaded e\<rparr>)"
  "loader_store (Request_updateProgress task e s) = loader_store s"
  by (simp_all add: Request_updateProgress_def)

lemma xhr_onloadend_simps [simp]:
  "task_store (xhr_onloadend task e s) =
     (task_store s)(task := (task_store s task)
        \<lparr>xhr := False, complete := True,
          workComputable := lengthComputable e, totalWork := total e, completedWork := loaded e\<rparr>)"
  "loader_store (xhr_onloadend task e s) = loader_store s"
  by (simp_all add: xhr_onloadend_def)

lemma xhr_abort_simps [simp]:
  "task_store (xhr_abort task s) =
     (task_store s)(task := (task_store s task)
        \<lparr>Task.aborted := True, xhr := False, complete := True,
          workComputable := False, totalWork := 0, completedWork := 0\<rparr>)"
  "loader_store (xhr_abort task s) = loader_store s"
  by (simp_all add: xhr_abort_def xhr_onabort_def abort_event_def)

lemma Task_abort_loader_store [simp]: "loader_store (Task_abort task s) = loader_store s"
  by (simp add: Task_abort_def Let_def split: task_class.splits)

lemma Task_abort_task_store:
  "task_store (Task_abort task s) =
     (task_store s)(task :=
        (if cls (task_store s task) = Request \<and> xhr (task_store s task)
         then (task_store s task)
           \<lparr>aborts := aborts (task_store s task) + 1, Task.aborted := True, xhr := False,
             complete := True, workComputable := False, totalWork := 0, completedWork := 0\<rparr>
         else (task_store s task)
           \<lparr>aborts := aborts (task_store s task) + 1, Task.aborted := True\<rparr>))"
  by (auto simp: Task_abort_def Let_def split: task_class.splits)

lemma markComplete_simps [simp]:
  "task_store (markComplete task s) = (task_store s)(task := (task_store s task)\<lparr>complete := True\<rparr>)"
  "loader_store (markComplete task s) = loader_store s"
  "task_store (image_onload task s) = (task_store s)(task := (task_store s task)\<lparr>complete := True\<rparr>)"
  "loader_store (image_onload task s) = loader_store s"
  by (simp_all add: markComplete_def image_onload_def)

lemma evolves_refl [simp]: "evolves s s"
  by (simp add: evolves_def task_evolves_def)

lemma evolves_trans: "evolves s s' \<Longrightarrow> evolves s' s'' \<Longrightarrow> evolves s s''"
  by (simp add: evolves_def task_evolves_def)

lemma evolves_Task_abort: "evolves s (Task_abort task s)"
  by (simp add: evolves_def task_evolves_def Task_abort_task_store)

lemma fold_Task_abort_loader_store [simp]:
  "loader_store (fold Task_abort ts s) = loader_store s"
  by (induction ts arbitrary: s) simp_all

lemma evolves_fold_Task_abort: "evolves s (fold Task_abort ts s)"
proof (induction ts arbitrary: s)
  case Nil
  show ?case by simp
next
  case (Cons t ts)
  show ?case
    using evolves_trans [OF evolves_Task_abort Cons.IH] by simp
qed

lemma fold_setLoader_simps [simp]:
  "task_store (fold (\<lambda>task. setLoader task l) ts s) =
     (\<lambda>task. if task \<in> set ts then (task_store s task)\<lparr>loader := l\<rparr> else task_store s task)"
  "loader_store (fold (\<lambda>task. setLoader task l) ts s) = loader_store s"
  "onprogress_calls (fold (\<lambda>task. setLoader task l) ts s) = onprogress_calls s"
  by (induction ts arbitrary: s) (auto simp: fun_eq_iff)

lemma evolves_apply_op: "evolves s (apply_op x s)"
proof (cases x)
  case (AbortLoader l)
  have "evolves s (update_loader l (\<lambda>this. this\<lparr>Loader.aborted := True\<rparr>) s)"
    by (simp add: evolves_def task_evolves_def)
  from evolves_trans [OF this evolves_fold_Task_abort] show ?thesis
    by (simp add: AbortLoader Loader_abort_def Let_def)
next
  case (AbortTask task)
  then show ?thesis by (simp add: evolves_Task_abort)
qed (simp_all add: evolves_def task_evolves_def addTask_def resetTasks_def cleanup_def
       for_class_def ignoreErrors_def Request_load_def xhr_onloadstart_def xhr_onload_def
       xhr_onerror_def xhr_onabort_def Let_def)

lemma evolves_apply_ops: "evolves s (apply_ops xs s)"
proof (induction xs arbitrary: s)
  case Nil
  show ?case by simp
next
  case (Cons x xs)
  show ?case
    using evolves_trans [OF evolves_apply_op Cons.IH] by simp
qed

lemma tasks_apply_op:
  "\<not> changes_tasks x \<Longrightarrow> tasks (loader_store (apply_op x s) l) = tasks (loader_store s l)"
  by (cases x)
     (simp_all add: for_class_def Loader_abort_def Let_def xhr_onloadstart_def)

lemma tasks_apply_ops:
  "\<forall>x \<in> set xs. \<not> changes_tasks x \<Longrightarrow>
   tasks (loader_store (apply_ops xs s) l) = tasks (loader_store s l)"
  by (induction xs arbitrary: s) (simp_all add: tasks_apply_op)

lemma filter_length_mono:
  "(\<And>x. x \<in> set xs \<Longrightarrow> P x \<Longrightarrow> Q x) \<Longrightarrow> length (filter P xs) \<le> length (filter Q xs)"
  by (induction xs) auto

lemma calculateProgress_mono:
  assumes "evolves s s'" and "tasks (loader_store s' l) = tasks (loader_store s l)"
  shows "calculateProgress s l \<le> calculateProgress s' l"
proof (cases "Loader.aborted (loader_store s' l)")
  case True
  then show ?thesis
    using calculateProgress_le_1 [of s l] by (simp add: calculateProgress_def)
next
  case False
  with assms(1) have na: "\<not> Loader.aborted (loader_store s l)"
    by (auto simp: evolves_def)
  have "length (filter (\<lambda>task. isComplete (task_store s task)) (tasks (loader_store s l)))
          \<le> length (filter (\<lambda>task. isComplete (task_store s' task)) (tasks (loader_store s l)))"
    using assms(1) by (intro filter_length_mono) (simp add: evolves_def task_evolves_def isComplete_def)
  then show ?thesis
    using False na assms(2)
    by (simp add: calculateProgress_def Let_def count_finished_filter divide_right_mono)
qed

text \<open>
  Claim C3. \<open>updateProgress\<close> changes nothing when \<open>error\<close> is set. Otherwise it
  calls \<open>onprogress\<close> once, with the value of \<open>calculateProgress\<close>, which is 1 for an
  aborted loader, 0 for a loader without registered tasks, and else the number of entries
  of \<open>_tasks\<close> whose \<open>isComplete()\<close> is true divided by the number of entries. A loader
  that is not aborted, with 4 registered tasks of which 2 are complete, computes 0.5.
  \<open>resetTasks\<close> on a loader that is not aborted leaves no registered task and a progress
  of 0, whatever the tasks were, and (unless \<open>error\<close> is set) reports that 0.
\<close>

theorem loader_updateProgress_reports_ratio:
  "(error (loader_store s l) \<longrightarrow> updateProgress l s = s) \<and>
   (\<not> error (loader_store s l) \<longrightarrow>
      updateProgress l s =
        s\<lparr>onprogress_calls := onprogress_calls s @ [(l, calculateProgress s l)]\<rparr>) \<and>
   calculateProgress s l =
     (if Loader.aborted (loader_store s l) then 1
      else if tasks (loader_store s l) = [] then 0
      else real (length (filter (\<lambda>task. isComplete (task_store s task)) (tasks (loader_store s l))))
           / real (length (tasks (loader_store s l)))) \<and>
   (\<not> Loader.aborted (loader_store s l) \<and> length (tasks (loader_store s l)) = 4 \<and>
    length (filter (\<lambda>task. isComplete (task_store s task)) (tasks (loader_store s l))) = 2 \<longrightarrow>
      calculateProgress s l = 0.5) \<and>
   (\<not> Loader.aborted (loader_store s l) \<longrightarrow>
      tasks (loader_store (resetTasks l s) l) = [] \<and>
      calculateProgress (resetTasks l s) l = 0 \<and>
      (\<not> error (loader_store s l) \<longrightarrow>
         onprogress_calls (resetTasks l s) = onprogress_calls s @ [(l, 0)]))"
proof -
  have c: "calculateProgress s l =
     (if Loader.aborted (loader_store s l) then 1
      else if tasks (loader_store s l) = [] then 0
      else real (length (filter (\<lambda>task. isComplete (task_store s task)) (tasks (loader_store s l))))
           / real (length (tasks (loader_store s l))))"
    by (simp add: calculateProgress_def Let_def count_finished_filter)
  have u1: "error (loader_store s l) \<longrightarrow> updateProgress l s = s"
    by (simp add: updateProgress_def)
  have u2: "\<not> error (loader_store s l) \<longrightarrow>
      updateProgress l s =
        s\<lparr>onprogress_calls := onprogress_calls s @ [(l, calculateProgress s l)]\<rparr>"
    by (simp add: updateProgress_def onprogress_def)
  have h: "\<not> Loader.aborted (loader_store s l) \<and> length (tasks (loader_store s l)) = 4 \<and>
    length (filter (\<lambda>task. isComplete (task_store s task)) (tasks (loader_store s l))) = 2 \<longrightarrow>
      calculateProgress s l = 0.5"
    unfolding c by auto
  have r0: "calculateProgress (update_loader l (\<lambda>this. this\<lparr>tasks := []\<rparr>) s) l = 0"
    if "\<not> Loader.aborted (loader_store s l)"
    using that by (simp add: calculateProgress_def)
  have r: "\<not> Loader.aborted (loader_store s l) \<longrightarrow>
      tasks (loader_store (resetTasks l s) l) = [] \<and>
      calculateProgress (resetTasks l s) l = 0 \<and>
      (\<not> error (loader_store s l) \<longrightarrow>
         onprogress_calls (resetTasks l s) = onprogress_calls s @ [(l, 0)])"
    using r0 by (simp add: resetTasks_def calculateProgress_def)
  from u1 u2 c h r show ?thesis
    by blast
qed

lemmas op_defs = addTask_def for_class_def markComplete_def image_onload_def
  setLoader_def update_task_def update_loader_def updateLoaderProgress_def updateProgress_def
  onprogress_def calculateProgress_def isComplete_def resetTasks_def cleanup_def
  Loader_abort_def Task_abort_def xhr_abort_def xhr_onloadend_def xhr_onloadstart_def
  Request_updateProgress_def xhr_onabort_def xhr_onload_def xhr_onerror_def Request_load_def
  ignoreErrors_def abort_event_def acceptableResponseCodes_def
  initial_system_def new_Task_def new_Loader_def example_classes_def Let_def


text \<open>
  In the example system, loader 0 has four tasks of which 1 and 3 are complete: it
  computes and reports 0.5, reports 0 after \<open>resetTasks\<close>, and reports nothing once
  \<open>error\<close> is set.
\<close>

theorem loader_updateProgress_reports_ratio_witness:
  "loader_store example_system 0 = \<lparr>tasks = [0, 1, 2, 3], aborted = False, error = False\<rparr> \<and>
   filter (\<lambda>task. isComplete (task_store example_system task)) [0, 1, 2, 3] = [1, 3] \<and>
   calculateProgress example_system 0 = 0.5 \<and>
   onprogress_calls (updateProgress 0 example_system) =
     onprogress_calls example_system @ [(0, 0.5)] \<and>
   onprogress_calls (resetTasks 0 example_system) = onprogress_calls example_system @ [(0, 0)] \<and>
   updateProgress 0 (update_loader 0 (\<lambda>this. this\<lparr>error := True\<rparr>) example_system) =
     update_loader 0 (\<lambda>this. this\<lparr>error := True\<rparr>) example_system"
proof -
  have l: "loader_store example_system 0 =
             \<lparr>tasks = [0, 1, 2, 3], aborted = False, error = False\<rparr>"
    by (simp add: example_system_def op_defs)
  have f: "filter (\<lambda>task. isComplete (task_store example_system task)) [0, 1, 2, 3] = [1, 3]"
    by (simp add: example_system_def op_defs)
  have e: "error (loader_store
             (update_loader 0 (\<lambda>this. this\<lparr>error := True\<rparr>) example_system) 0)"
    by simp
  note t = loader_updateProgress_reports_ratio [of example_system 0]
  note u = loader_updateProgress_reports_ratio
             [of "update_loader 0 (\<lambda>this. this\<lparr>error := True\<rparr>) example_system" 0,
              THEN conjunct1, THEN mp, OF e]
  from t l f u show ?thesis
    by simp
qed

lemma Task_abort_aborts:
  "aborts (task_store (Task_abort x s) task) =
     aborts (task_store s task) + (if task = x then 1 else 0)"
  by (simp add: Task_abort_task_store)

lemma fold_Task_abort_aborts:
  "aborts (task_store (fold Task_abort ts s) task) = aborts (task_store s task) + count_list ts task"
  by (induction ts arbitrary: s) (simp_all add: Task_abort_aborts)

lemma count_list_distinct: "distinct xs \<Longrightarrow> x \<in> set xs \<Longrightarrow> count_list xs x = 1"
  by (induction xs) auto

lemma calculateProgress_aborted:
  "Loader.aborted (loader_store s l) \<Longrightarrow> calculateProgress s l = 1"
  by (simp add: calculateProgress_def)

lemma aborted_apply_ops:
  "Loader.aborted (loader_store s l) \<Longrightarrow> Loader.aborted (loader_store (apply_ops xs s) l)"
  using evolves_apply_ops [of s xs] by (simp add: evolves_def)

lemma Loader_abort_aborted: "Loader.aborted (loader_store (Loader_abort l s) l)"
  by (simp add: Loader_abort_def Let_def)

text \<open>
  Claim C4, as amended. \<open>Loader.abort()\<close> sets \<open>aborted\<close>. It calls \<open>abort()\<close> once for
  every entry of \<open>_tasks\<close>: the number of \<open>abort()\<close> calls a task has received grows by
  the number of times the task occurs in \<open>_tasks\<close>. That is exactly one call for every
  registered task when no task was added twice, two for a task that \<open>addTask\<close> pushed
  twice, and none for a task that is not registered. From then on the loader computes the
  progress 1, after any further operations and whatever the states of the tasks, and
  \<open>updateProgress\<close> reports 1 (unless \<open>error\<close> is set).
\<close>

theorem loader_abort_effect:
  "Loader.aborted (loader_store (Loader_abort l s) l) \<and>
   (\<forall>task. aborts (task_store (Loader_abort l s) task) =
            aborts (task_store s task) + count_list (tasks (loader_store s l)) task) \<and>
   (distinct (tasks (loader_store s l)) \<longrightarrow>
      (\<forall>task \<in> set (tasks (loader_store s l)).
         aborts (task_store (Loader_abort l s) task) = aborts (task_store s task) + 1)) \<and>
   calculateProgress (Loader_abort l s) l = 1 \<and>
   (\<forall>xs. calculateProgress (apply_ops xs (Loader_abort l s)) l = 1 \<and>
      (\<not> error (loader_store (apply_ops xs (Loader_abort l s)) l) \<longrightarrow>
         onprogress_calls (updateProgress l (apply_ops xs (Loader_abort l s))) =
           onprogress_calls (apply_ops xs (Loader_abort l s)) @ [(l, 1)]))"
proof -
  have a: "Loader.aborted (loader_store (Loader_abort l s) l)"
    by (rule Loader_abort_aborted)
  have n: "aborts (task_store (Loader_abort l s) task) =
            aborts (task_store s task) + count_list (tasks (loader_store s l)) task" for task
    by (simp add: Loader_abort_def Let_def fold_Task_abort_aborts)
  have d: "distinct (tasks (loader_store s l)) \<longrightarrow>
      (\<forall>task \<in> set (tasks (loader_store s l)).
         aborts (task_store (Loader_abort l s) task) = aborts (task_store s task) + 1)"
    by (simp add: n count_list_distinct)
  have p: "calculateProgress (apply_ops xs (Loader_abort l s)) l = 1" for xs
    by (intro calculateProgress_aborted aborted_apply_ops a)
  from p [of "[]"] have p0: "calculateProgress (Loader_abort l s) l = 1"
    by simp
  have q: "\<not> error (loader_store (apply_ops xs (Loader_abort l s)) l) \<longrightarrow>
         onprogress_calls (updateProgress l (apply_ops xs (Loader_abort l s))) =
           onprogress_calls (apply_ops xs (Loader_abort l s)) @ [(l, 1)]" for xs
    by (simp add: p)
  from a n d p p0 q show ?thesis
    by blast
qed

lemma ratio_add_incomplete:
  fixes f n :: nat
  assumes "0 < n"
  shows "real f / real (n + 1) < real f / real n \<longleftrightarrow> 0 < f"
proof (cases "f = 0")
  case True
  then show ?thesis by simp
next
  case False
  then have "0 < real f" by simp
  moreover have "real n < real (n + 1)" by simp
  moreover have "0 < real n" using assms by simp
  ultimately have "real f / real (n + 1) < real f / real n"
    by (intro divide_strict_left_mono) simp_all
  with False show ?thesis by simp
qed

lemma ratio_add_complete:
  fixes f n :: nat
  assumes "0 < n" and "f \<le> n"
  shows "real f / real n \<le> real (f + 1) / real (n + 1)"
proof -
  have "real f * real (n + 1) \<le> real (f + 1) * real n"
    using assms(2) by (simp add: algebra_simps)
  with assms(1) show ?thesis
    by (simp add: field_simps)
qed

lemma addTask_progress:
  assumes "\<not> Loader.aborted (loader_store s l)"
  shows "calculateProgress (addTask l task s) l < calculateProgress s l \<longleftrightarrow>
         \<not> isComplete (task_store s task) \<and> 0 < count_finished s (tasks (loader_store s l)) 0"
proof -
  let ?ts = "tasks (loader_store s l)"
  let ?f = "length (filter (\<lambda>t. isComplete (task_store s t)) ?ts)"
  have same: "isComplete (task_store (addTask l task s) t) = isComplete (task_store s t)" for t
    by (simp add: addTask_def isComplete_def)
  have new: "calculateProgress (addTask l task s) l =
          real (?f + (if isComplete (task_store s task) then 1 else 0)) / real (length ?ts + 1)"
    using assms
    by (simp add: calculateProgress_def Let_def count_finished_filter same)
       (simp add: addTask_def)
  have old: "calculateProgress s l = (if ?ts = [] then 0 else real ?f / real (length ?ts))"
    using assms by (simp add: calculateProgress_def Let_def count_finished_filter)
  have le: "?f \<le> length ?ts" by simp
  show ?thesis
  proof (cases "?ts = []")
    case True
    then show ?thesis
      unfolding new old by (simp add: count_finished_filter)
  next
    case False
    then have n: "0 < length ?ts" by simp
    show ?thesis
    proof (cases "isComplete (task_store s task)")
      case True
      with ratio_add_complete [OF n le] False show ?thesis
        unfolding new old by (simp add: not_less)
    next
      case c: False
      with ratio_add_incomplete [OF n, of ?f] False show ?thesis
        unfolding new old by (simp add: count_finished_filter)
    qed
  qed
qed

text \<open>
  Claim C5, as amended. Over any sequence of operations that leaves the arrays \<open>_tasks\<close>
  alone (completion events, transfer events, progress updates, aborts of tasks and of
  loaders, \<open>setLoader\<close>), the progress a loader computes never decreases. It is at most
  1, and \<open>abort()\<close> makes it 1. On a loader that is not aborted, \<open>resetTasks()\<close> makes
  it 0, and \<open>addTask(task)\<close> lowers it exactly when \<open>task\<close> is not complete while at
  least one registered task is.
\<close>

theorem loader_progress_monotone_without_registration:
  "((\<forall>x \<in> set xs. \<not> changes_tasks x) \<longrightarrow>
      calculateProgress s l \<le> calculateProgress (apply_ops xs s) l) \<and>
   calculateProgress s l \<le> 1 \<and>
   calculateProgress (apply_op (AbortLoader l) s) l = 1 \<and>
   (\<not> Loader.aborted (loader_store s l) \<longrightarrow>
      calculateProgress (apply_op (ResetTasks l) s) l = 0 \<and>
      (calculateProgress (apply_op (AddTask l task) s) l < calculateProgress s l \<longleftrightarrow>
         \<not> isComplete (task_store s task) \<and>
         0 < count_finished s (tasks (loader_store s l)) 0))"
proof -
  have m: "(\<forall>x \<in> set xs. \<not> changes_tasks x) \<longrightarrow>
      calculateProgress s l \<le> calculateProgress (apply_ops xs s) l"
    using calculateProgress_mono [OF evolves_apply_ops] tasks_apply_ops by blast
  have a: "calculateProgress (apply_op (AbortLoader l) s) l = 1"
    by (simp add: calculateProgress_aborted Loader_abort_aborted)
  have r: "\<not> Loader.aborted (loader_store s l) \<longrightarrow>
      calculateProgress (apply_op (ResetTasks l) s) l = 0"
    by (simp add: resetTasks_def calculateProgress_def)
  from m a r addTask_progress [of s l task] calculateProgress_le_1 [of s l]
  show ?thesis
    by simp
qed

lemma detached_calls:
  assumes "loader (task_store s task) = None"
  shows "onprogress_calls (markComplete task s) = onprogress_calls s"
    and "onprogress_calls (image_onload task s) = onprogress_calls s"
    and "onprogress_calls (xhr_onloadstart task e s) = onprogress_calls s"
    and "onprogress_calls (xhr_onloadend task e s) = onprogress_calls s"
    and "onprogress_calls (Task_abort task s) = onprogress_calls s"
  using assms
  by (simp_all add: markComplete_def image_onload_def xhr_onloadstart_def xhr_onloadend_def
        Request_updateProgress_def updateLoaderProgress_calls Task_abort_def xhr_abort_def
        xhr_onabort_def Let_def split: task_class.splits)

lemma detached_ops:
  assumes "loader (task_store s task) = None"
  shows "onprogress_calls (apply_op (MarkComplete task) s) = onprogress_calls s"
    and "onprogress_calls (apply_op (ImageOnload task) s) = onprogress_calls s"
    and "onprogress_calls (apply_op (Onloadstart task e) s) = onprogress_calls s"
    and "onprogress_calls (apply_op (Onloadend task e) s) = onprogress_calls s"
    and "onprogress_calls (apply_op (AbortTask task) s) = onprogress_calls s"
  using detached_calls [OF assms] by (simp_all add: for_class_def)

lemma cleanup_loader:
  "task \<in> set (tasks (loader_store s l)) \<Longrightarrow> loader (task_store (cleanup l s) task) = None"
  by (simp add: cleanup_def Let_def)

lemma cleanup_tasks: "tasks (loader_store (cleanup l s) l) = []"
  by (simp add: cleanup_def Let_def)

lemma cleanup_idem: "cleanup l (cleanup l s) = cleanup l s"
proof -
  have "cleanup l s' = s'" if "tasks (loader_store s' l) = []" for s'
  proof -
    have eq: "(loader_store s' l)\<lparr>tasks := []\<rparr> = loader_store s' l"
      using that by (cases "loader_store s' l") simp
    have "cleanup l s' =
            s'\<lparr>loader_store := (loader_store s')(l := (loader_store s' l)\<lparr>tasks := []\<rparr>)\<rparr>"
      using that by (simp add: cleanup_def Let_def update_loader_def)
    also have "\<dots> = s'\<lparr>loader_store := (loader_store s')(l := loader_store s' l)\<rparr>"
      by (simp only: eq)
    also have "\<dots> = s'"
      by simp
    finally show ?thesis .
  qed
  then show ?thesis
    by (simp add: cleanup_tasks)
qed

text \<open>
  Claim C9. After \<open>cleanup()\<close>, whatever the flags of the loader and the states of its
  tasks were (the flags are left as they are), the loader has no registered task. Every
  task that was registered when \<open>cleanup()\<close> was called has no loader any more, so
  \<open>updateLoaderProgress\<close> does nothing for it, and its progress events (\<open>markComplete\<close>,
  the \<open>onload\<close> of an image, \<open>loadstart\<close> and \<open>loadend\<close> of a transfer, and an
  \<open>abort()\<close> that ends a transfer) call \<open>onprogress\<close> on no loader. No branch of
  \<open>updateLoaderProgress\<close> uses an absent loader, so there is nothing that could throw.
  A second \<open>cleanup()\<close> changes nothing.
\<close>

theorem loader_cleanup_detaches:
  "tasks (loader_store (cleanup l s) l) = [] \<and>
   Loader.aborted (loader_store (cleanup l s) l) = Loader.aborted (loader_store s l) \<and>
   error (loader_store (cleanup l s) l) = error (loader_store s l) \<and>
   (\<forall>task \<in> set (tasks (loader_store s l)).
      loader (task_store (cleanup l s) task) = None \<and>
      updateLoaderProgress task (cleanup l s) = cleanup l s \<and>
      onprogress_calls (apply_op (MarkComplete task) (cleanup l s)) =
        onprogress_calls (cleanup l s) \<and>
      onprogress_calls (apply_op (ImageOnload task) (cleanup l s)) =
        onprogress_calls (cleanup l s) \<and>
      onprogress_calls (apply_op (Onloadstart task e) (cleanup l s)) =
        onprogress_calls (cleanup l s) \<and>
      onprogress_calls (apply_op (Onloadend task e) (cleanup l s)) =
        onprogress_calls (cleanup l s) \<and>
      onprogress_calls (apply_op (AbortTask task) (cleanup l s)) =
        onprogress_calls (cleanup l s)) \<and>
   cleanup l (cleanup l s) = cleanup l s"
proof -
  have f: "Loader.aborted (loader_store (cleanup l s) l) = Loader.aborted (loader_store s l) \<and>
           error (loader_store (cleanup l s) l) = error (loader_store s l)"
    by (simp add: cleanup_def Let_def)
  have d: "loader (task_store (cleanup l s) task) = None \<and>
      updateLoaderProgress task (cleanup l s) = cleanup l s \<and>
      onprogress_calls (apply_op (MarkComplete task) (cleanup l s)) =
        onprogress_calls (cleanup l s) \<and>
      onprogress_calls (apply_op (ImageOnload task) (cleanup l s)) =
        onprogress_calls (cleanup l s) \<and>
      onprogress_calls (apply_op (Onloadstart task e) (cleanup l s)) =
        onprogress_calls (cleanup l s) \<and>
      onprogress_calls (apply_op (Onloadend task e) (cleanup l s)) =
        onprogress_calls (cleanup l s) \<and>
      onprogress_calls (apply_op (AbortTask task) (cleanup l s)) =
        onprogress_calls (cleanup l s)"
    if "task \<in> set (tasks (loader_store s l))" for task
  proof -
    have n: "loader (task_store (cleanup l s) task) = None"
      using that by (rule cleanup_loader)
    then have "updateLoaderProgress task (cleanup l s) = cleanup l s"
      by (simp add: updateLoaderProgress_def)
    with n detached_ops [OF n] show ?thesis
      by simp
  qed
  from f d cleanup_tasks [of l s] cleanup_idem [of l s] show ?thesis
    by blast
qed

lemma filter_remove1_member:
  "P r \<Longrightarrow> r \<in> set ts \<Longrightarrow> length (filter P ts) = Suc (length (filter P (remove1 r ts)))"
  by (induction ts) auto

lemma fst_xhr_onload [simp]: "fst (xhr_onload st this) = this\<lparr>status := st\<rparr>"
  by (simp add: xhr_onload_def Let_def)

lemma complete_apply_ops:
  "complete (task_store s r) \<Longrightarrow> complete (task_store (apply_ops xs s) r)"
  using evolves_apply_ops [of s xs] by (simp add: evolves_def task_evolves_def)

lemma counted_when_complete:
  assumes "complete (task_store s r)" and "r \<in> set (tasks (loader_store s l))"
  shows "count_finished s (tasks (loader_store s l)) 0 =
           Suc (count_finished s (remove1 r (tasks (loader_store s l))) 0)"
    and "\<not> Loader.aborted (loader_store s l) \<Longrightarrow>
           1 / real (length (tasks (loader_store s l))) \<le> calculateProgress s l"
proof -
  let ?P = "\<lambda>task. isComplete (task_store s task)"
  from assms have c: "length (filter ?P (tasks (loader_store s l))) =
      Suc (length (filter ?P (remove1 r (tasks (loader_store s l)))))"
    by (intro filter_remove1_member) (simp_all add: isComplete_def)
  then show "count_finished s (tasks (loader_store s l)) 0 =
           Suc (count_finished s (remove1 r (tasks (loader_store s l))) 0)"
    by (simp add: count_finished_filter)
  assume na: "\<not> Loader.aborted (loader_store s l)"
  from assms(2) have ne: "tasks (loader_store s l) \<noteq> []" by auto
  from c have "1 \<le> real (length (filter ?P (tasks (loader_store s l))))" by simp
  then show "1 / real (length (tasks (loader_store s l))) \<le> calculateProgress s l"
    using na ne
    by (simp add: calculateProgress_def Let_def count_finished_filter divide_right_mono)
qed

text \<open>
  Claim C10. Let \<open>r\<close> be a Request. Once \<open>onloadend\<close> has run, \<open>isComplete()\<close> is true
  after any further operations \<open>xs\<close>; so it is when the response was an HTTP error
  (\<open>onload\<close> with any status \<open>st\<close>, then \<open>onloadend\<close>), and when \<open>abort()\<close> ended a
  transfer in flight. In every loader whose \<open>_tasks\<close> holds \<open>r\<close> then, the loop of
  \<open>calculateProgress\<close> counts \<open>r\<close> among the finished tasks, and a loader that is not
  aborted computes a progress of at least one task's share.
\<close>

theorem request_complete_after_loadend:
  assumes "cls (task_store s r) = Request"
    and "s' = apply_ops xs (apply_op (Onloadend r e) s)"
  shows "isComplete (task_store s' r) \<and>
         isComplete (task_store (apply_ops xs (apply_ops [Onload r st, Onloadend r e] s)) r) \<and>
         (xhr (task_store s r) \<longrightarrow>
            isComplete (task_store (apply_ops xs (apply_op (AbortTask r) s)) r)) \<and>
         (\<forall>l. r \<in> set (tasks (loader_store s' l)) \<longrightarrow>
            count_finished s' (tasks (loader_store s' l)) 0 =
              Suc (count_finished s' (remove1 r (tasks (loader_store s' l))) 0) \<and>
            (\<not> Loader.aborted (loader_store s' l) \<longrightarrow>
               1 / real (length (tasks (loader_store s' l))) \<le> calculateProgress s' l))"
proof -
  have "complete (task_store (apply_op (Onloadend r e) s) r)"
    using assms(1) by (simp add: for_class_def)
  then have c1: "complete (task_store s' r)"
    unfolding assms(2) by (rule complete_apply_ops)
  have "complete (task_store (apply_ops [Onload r st, Onloadend r e] s) r)"
    using assms(1) by (simp add: for_class_def)
  then have c2: "complete (task_store (apply_ops xs (apply_ops [Onload r st, Onloadend r e] s)) r)"
    by (rule complete_apply_ops)
  have c3: "complete (task_store (apply_ops xs (apply_op (AbortTask r) s)) r)"
    if x: "xhr (task_store s r)"
  proof -
    have "complete (task_store (apply_op (AbortTask r) s) r)"
      using assms(1) x by (simp add: Task_abort_task_store)
    then show ?thesis
      by (rule complete_apply_ops)
  qed
  from c1 c2 c3 counted_when_complete [OF c1] show ?thesis
    by (simp add: isComplete_def)
qed

text \<open>
  Claim C8. When the response of an attempt arrives (\<open>xhr.onload\<close> with status \<open>st\<close>),
  the attempt resolves if and only if \<open>st\<close> is 0 or 200 or \<open>shouldIgnoreErrors\<close> is set;
  for any other status without that flag it rejects with the HTTP error of that status.
  The status is stored. \<open>ignoreErrors()\<close> sets the flag, and no operation clears it: a
  request on which \<open>ignoreErrors()\<close> was called resolves for every status, whatever
  happened in between. (An attempt without a response, ended by an \<open>error\<close> or
  \<open>abort\<close> event or refused because the request was aborted before, has no response
  status; it rejects.)
\<close>

theorem request_onload_accepts:
  "(snd (xhr_onload st this) = Inr () \<longleftrightarrow> st = 0 \<or> st = 200 \<or> shouldIgnoreErrors this) \<and>
   (st \<noteq> 0 \<and> st \<noteq> 200 \<and> \<not> shouldIgnoreErrors this \<longrightarrow>
      snd (xhr_onload st this) = Inl (HttpError st)) \<and>
   status (fst (xhr_onload st this)) = st \<and>
   snd (xhr_onload st (ignoreErrors this)) = Inr () \<and>
   (cls (task_store s r) = Request \<longrightarrow>
      snd (xhr_onload st (task_store (apply_ops xs (apply_op (IgnoreErrors r) s)) r)) = Inr ())"
proof -
  have "shouldIgnoreErrors (task_store (apply_ops xs (apply_op (IgnoreErrors r) s)) r)"
    if "cls (task_store s r) = Request"
  proof -
    from that have "shouldIgnoreErrors (task_store (apply_op (IgnoreErrors r) s) r)"
      by (simp add: for_class_def ignoreErrors_def)
    with evolves_apply_ops [of "apply_op (IgnoreErrors r) s" xs] show ?thesis
      by (simp add: evolves_def task_evolves_def)
  qed
  then show ?thesis
    by (auto simp: xhr_onload_def acceptableResponseCodes_def ignoreErrors_def Let_def)
qed

lemma aborted_after_abort:
  "Task.aborted (task_store (apply_ops xs (apply_op (AbortTask task) s)) task)"
proof -
  have "Task.aborted (task_store (apply_op (AbortTask task) s) task)"
    by (simp add: Task_abort_task_store)
  with evolves_apply_ops [of "apply_op (AbortTask task) s" xs] show ?thesis
    by (simp add: evolves_def task_evolves_def)
qed

text \<open>
  Claim C7. Let attempt \<open>k\<close> be made (\<open>k < 4\<close>, the earlier attempts failed with the
  wrapper not aborted) and fail with \<open>err\<close> while \<open>aborted\<close> is set. Then \<open>try\<close> rejects
  with \<open>err\<close> itself, \<open>handle\<close> has been called \<open>k + 1\<close> times and not again, and the
  only sleeps are the \<open>k\<close> that preceded the attempt. \<open>abort()\<close> of a task sets
  \<open>aborted\<close>, and no later operation clears it.
\<close>

theorem retry_try_rethrows_when_aborted:
  assumes "k < 4" and "\<forall>j<k. (\<exists>e. h j = Inl e) \<and> \<not> ab j" and "h k = Inl err" and "ab k"
  shows "result (Retry_try h ab rnd) = Inl (Some err) \<and>
         attempts (Retry_try h ab rnd) = k + 1 \<and>
         length (sleeps (Retry_try h ab rnd)) = k \<and>
         Task.aborted (task_store (apply_ops xs (apply_op (AbortTask task) s)) task)"
proof -
  have "Retry_try h ab rnd =
           \<lparr>result = Inl (Some err), attempts = Suc k,
            sleeps = map (\<lambda>i. 2 ^ i * 500 * rnd i + 50) [0..<k]\<rparr>"
    using assms by (intro Retry_try_aborted) (simp_all add: MAX_ATTEMPST_def)
  then show ?thesis
    using aborted_after_abort [of xs task s] by simp
qed

lemma ex_loader: "loader_store example_system 0 =
    \<lparr>tasks = [0, 1, 2, 3], aborted = False, error = False\<rparr>"
  by (simp add: example_system_def op_defs)

text \<open>
  Aborting loader 0 of the example system: each of its four tasks receives one call,
  task 4 none. The transfer of request 0 is in flight, so its \<open>loadend\<close> handler runs
  inside \<open>abort()\<close> and the loader reports 1 at once.
\<close>

theorem loader_abort_effect_witness:
  "tasks (loader_store example_system 0) = [0, 1, 2, 3] \<and> distinct [0, 1, 2, 3 :: nat] \<and>
   map (\<lambda>task. aborts (task_store example_system task)) [0, 1, 2, 3, 4] = [0, 0, 0, 0, 0] \<and>
   map (\<lambda>task. aborts (task_store (Loader_abort 0 example_system) task)) [0, 1, 2, 3, 4] =
     [1, 1, 1, 1, 0] \<and>
   Loader.aborted (loader_store (Loader_abort 0 example_system) 0) \<and>
   calculateProgress (Loader_abort 0 example_system) 0 = 1 \<and>
   calculateProgress (apply_ops [AddTask 0 4, ResetTasks 0] (Loader_abort 0 example_system)) 0 = 1 \<and>
   onprogress_calls (Loader_abort 0 example_system) = [(0, 1 / 4), (0, 1 / 2), (0, 1)]"
proof -
  note t = loader_abort_effect [of 0 example_system]
  have d: "distinct (tasks (loader_store example_system 0))"
    by (simp add: ex_loader)
  note once = t [THEN conjunct2, THEN conjunct2, THEN conjunct1, THEN mp, OF d]
  have b: "map (\<lambda>task. aborts (task_store example_system task)) [0, 1, 2, 3, 4] = [0, 0, 0, 0, 0]"
    by (simp add: example_system_def op_defs)
  have c: "onprogress_calls (Loader_abort 0 example_system) = [(0, 1 / 4), (0, 1 / 2), (0, 1)]"
    by (simp add: example_system_def op_defs)
  note later = t [THEN conjunct2, THEN conjunct2, THEN conjunct2, THEN conjunct2,
                  THEN spec [of _ "[AddTask 0 4, ResetTasks 0]"], THEN conjunct1]
  from t once later b c show ?thesis
    by (simp add: ex_loader)
qed

text \<open>
  Claim C4 as stated fails: \<open>addTask\<close> pushes without looking for the task in
  \<open>_tasks\<close>, and \<open>abort()\<close> calls \<open>task.abort()\<close> for every entry. Loader 1 registers
  the Manual task 2 twice; the task has received no \<open>abort()\<close> call so far, and
  \<open>Loader.abort()\<close> calls its \<open>abort()\<close> twice, not once.
\<close>

theorem loader_abort_twice_on_task_added_twice:
  "tasks (loader_store
     (apply_ops [AddTask 1 2, AddTask 1 2] (initial_system example_classes)) 1) = [2, 2] \<and>
   aborts (task_store
     (apply_ops [AddTask 1 2, AddTask 1 2] (initial_system example_classes)) 2) = 0 \<and>
   aborts (task_store
     (Loader_abort 1
        (apply_ops [AddTask 1 2, AddTask 1 2] (initial_system example_classes))) 2) = 2 \<and>
   aborts (task_store
     (Loader_abort 1
        (apply_ops [AddTask 1 2, AddTask 1 2] (initial_system example_classes))) 2) \<noteq>
   aborts (task_store
     (apply_ops [AddTask 1 2, AddTask 1 2] (initial_system example_classes)) 2) + 1"
  by (simp add: op_defs)

text \<open>
  Claim C5 as stated fails: registration is among the operations it covers, and
  registering a task can lower the progress. Loader 1 registers the Manual task 2, which
  then completes: progress 1. It registers the Manual task 3: progress 0.5.
\<close>

theorem loader_progress_drops_on_addTask:
  "calculateProgress
     (apply_ops [AddTask 1 2, MarkComplete 2] (initial_system example_classes)) 1 = 1 \<and>
   calculateProgress
     (apply_op (AddTask 1 3)
        (apply_ops [AddTask 1 2, MarkComplete 2] (initial_system example_classes))) 1 = 1 / 2 \<and>
   \<not> calculateProgress
       (apply_ops [AddTask 1 2, MarkComplete 2] (initial_system example_classes)) 1
     \<le> calculateProgress
         (apply_op (AddTask 1 3)
            (apply_ops [AddTask 1 2, MarkComplete 2] (initial_system example_classes))) 1"
  by (simp add: op_defs)

text \<open>
  On the example system: a failing transfer of request 0, the completion of task 2, a
  progress update and the abort of task 1 take loader 0 from 0.5 to 1; registering the
  incomplete task 4 instead takes it from 0.5 to 0.4.
\<close>

theorem loader_progress_monotone_without_registration_witness:
  "list_all (\<lambda>x. \<not> changes_tasks x)
     [Onloadstart 0 abort_event, Onload 0 404, Onloadend 0 abort_event, MarkComplete 2,
      UpdateProgress 0, AbortTask 1] \<and>
   calculateProgress example_system 0 = 1 / 2 \<and>
   calculateProgress
     (apply_ops
        [Onloadstart 0 abort_event, Onload 0 404, Onloadend 0 abort_event, MarkComplete 2,
         UpdateProgress 0, AbortTask 1] example_system) 0 = 1 \<and>
   \<not> Loader.aborted (loader_store example_system 0) \<and>
   \<not> isComplete (task_store example_system 4) \<and>
   count_finished example_system (tasks (loader_store example_system 0)) 0 = 2 \<and>
   calculateProgress (apply_op (AddTask 0 4) example_system) 0 = 2 / 5 \<and>
   calculateProgress (apply_op (ResetTasks 0) example_system) 0 = 0 \<and>
   calculateProgress (apply_op (AbortLoader 0) example_system) 0 = 1"
proof -
  let ?xs = "[Onloadstart 0 abort_event, Onload 0 404, Onloadend 0 abort_event, MarkComplete 2,
      UpdateProgress 0, AbortTask 1]"
  note t = loader_progress_monotone_without_registration [of ?xs example_system 0 4]
  have h: "\<forall>x \<in> set ?xs. \<not> changes_tasks x"
    by simp
  note mono = t [THEN conjunct1, THEN mp, OF h]
  have na: "\<not> Loader.aborted (loader_store example_system 0)"
    by (simp add: ex_loader)
  note rest = t [THEN conjunct2, THEN conjunct2, THEN conjunct2, THEN mp, OF na]
  have p0: "calculateProgress example_system 0 = 1 / 2"
    by (simp add: example_system_def op_defs)
  have p1: "calculateProgress (apply_ops ?xs example_system) 0 = 1"
    by (simp add: example_system_def op_defs)
  have p2: "calculateProgress (apply_op (AddTask 0 4) example_system) 0 = 2 / 5"
    by (simp add: example_system_def op_defs)
  have c: "\<not> isComplete (task_store example_system 4)"
    by (simp add: example_system_def op_defs)
  have f: "count_finished example_system (tasks (loader_store example_system 0)) 0 = 2"
    by (simp add: example_system_def op_defs)
  from t mono rest na p0 p1 p2 c f show ?thesis
    by simp
qed

text \<open>
  Task 2 of the example system: its completion is reported to loader 0 (0.75) before
  \<open>cleanup()\<close>, and to nobody after it.
\<close>

theorem loader_cleanup_detaches_witness:
  "tasks (loader_store example_system 0) = [0, 1, 2, 3] \<and>
   (2::nat) \<in> set [0, 1, 2, 3] \<and>
   loader (task_store example_system 2) = Some 0 \<and>
   tasks (loader_store (cleanup 0 example_system) 0) = [] \<and>
   loader (task_store (cleanup 0 example_system) 2) = None \<and>
   onprogress_calls (apply_op (MarkComplete 2) example_system) =
     [(0, 1 / 4), (0, 1 / 2), (0, 3 / 4)] \<and>
   onprogress_calls (apply_op (MarkComplete 2) (cleanup 0 example_system)) =
     [(0, 1 / 4), (0, 1 / 2)] \<and>
   cleanup 0 (cleanup 0 example_system) = cleanup 0 example_system"
proof -
  note t = loader_cleanup_detaches [of 0 example_system abort_event]
  have m: "2 \<in> set (tasks (loader_store example_system 0))"
    by (simp add: ex_loader)
  note d = t [THEN conjunct2, THEN conjunct2, THEN conjunct2, THEN conjunct1, THEN bspec, OF m]
  have c0: "onprogress_calls (cleanup 0 example_system) = [(0, 1 / 4), (0, 1 / 2)]"
    by (simp add: example_system_def op_defs)
  have c1: "onprogress_calls (apply_op (MarkComplete 2) example_system) =
     [(0, 1 / 4), (0, 1 / 2), (0, 3 / 4)]"
    by (simp add: example_system_def op_defs)
  have l: "loader (task_store example_system 2) = Some 0"
    by (simp add: example_system_def op_defs)
  from t d c0 c1 l show ?thesis
    by (simp add: ex_loader)
qed

text \<open>
  Request 0 of the example system is in flight and not complete. After a 404 response,
  or after an abort, it is complete; with task 2 completed as well, loader 0 computes 1.
\<close>

theorem request_complete_after_loadend_witness:
  "cls (task_store example_system 0) = Request \<and>
   \<not> isComplete (task_store example_system 0) \<and>
   xhr (task_store example_system 0) \<and>
   isComplete (task_store
     (apply_ops [MarkComplete 2] (apply_op (Onloadend 0 abort_event) example_system)) 0) \<and>
   isComplete (task_store
     (apply_ops [MarkComplete 2]
        (apply_ops [Onload 0 404, Onloadend 0 abort_event] example_system)) 0) \<and>
   isComplete (task_store
     (apply_ops [MarkComplete 2] (apply_op (AbortTask 0) example_system)) 0) \<and>
   tasks (loader_store
     (apply_ops [MarkComplete 2] (apply_op (Onloadend 0 abort_event) example_system)) 0) =
     [0, 1, 2, 3] \<and>
   calculateProgress
     (apply_ops [MarkComplete 2] (apply_op (Onloadend 0 abort_event) example_system)) 0 = 1"
proof -
  let ?s' = "apply_ops [MarkComplete 2] (apply_op (Onloadend 0 abort_event) example_system)"
  have r: "cls (task_store example_system 0) = Request"
    by (simp add: example_system_def op_defs)
  note t = request_complete_after_loadend [OF r refl, of "[MarkComplete 2]" abort_event 404]
  have x: "xhr (task_store example_system 0)"
    by (simp add: example_system_def op_defs)
  note a = t [THEN conjunct2, THEN conjunct2, THEN conjunct1, THEN mp, OF x]
  have n: "\<not> isComplete (task_store example_system 0)"
    by (simp add: example_system_def op_defs)
  have l: "tasks (loader_store ?s' 0) = [0, 1, 2, 3]"
    by (simp add: example_system_def op_defs)
  have p: "calculateProgress ?s' 0 = 1"
    by (simp add: example_system_def op_defs)
  from t a r x n l p show ?thesis
    by simp
qed

text \<open>
  A new request resolves for the statuses 200 and 0 and rejects for 404; after
  \<open>ignoreErrors()\<close> it resolves for 404 too.
\<close>

theorem request_onload_accepts_witness:
  "snd (xhr_onload 200 (new_Task Request)) = Inr () \<and>
   snd (xhr_onload 0 (new_Task Request)) = Inr () \<and>
   (404::int) \<noteq> 0 \<and> (404::int) \<noteq> 200 \<and> \<not> shouldIgnoreErrors (new_Task Request) \<and>
   snd (xhr_onload 404 (new_Task Request)) = Inl (HttpError 404) \<and>
   snd (xhr_onload 404 (ignoreErrors (new_Task Request))) = Inr () \<and>
   cls (task_store example_system 0) = Request \<and>
   snd (xhr_onload 404 (task_store example_system 0)) = Inl (HttpError 404) \<and>
   snd (xhr_onload 404
     (task_store (apply_ops [Load 0] (apply_op (IgnoreErrors 0) example_system)) 0)) = Inr ()"
proof -
  have h: "(404::int) \<noteq> 0 \<and> (404::int) \<noteq> 200 \<and> \<not> shouldIgnoreErrors (new_Task Request)"
    by (simp add: new_Task_def)
  note t = request_onload_accepts [of 404 "new_Task Request" example_system 0 "[Load 0]"]
  note rej = t [THEN conjunct2, THEN conjunct1, THEN mp, OF h]
  have r: "cls (task_store example_system 0) = Request"
    by (simp add: example_system_def op_defs)
  note ign = t [THEN conjunct2, THEN conjunct2, THEN conjunct2, THEN conjunct2, THEN mp, OF r]
  have e: "snd (xhr_onload 404 (task_store example_system 0)) = Inl (HttpError 404)"
    by (simp add: example_system_def op_defs)
  have o: "snd (xhr_onload 200 (new_Task Request)) = Inr () \<and>
           snd (xhr_onload 0 (new_Task Request)) = Inr ()"
    by (simp add: op_defs)
  from t rej ign h r e o show ?thesis
    by simp
qed

text \<open>
  The wrapper is aborted while the second attempt runs: the error of the second attempt
  comes out, after two calls and one sleep.
\<close>

theorem retry_try_rethrows_when_aborted_witness:
  "(1::nat) < 4 \<and>
   Retry_try (\<lambda>k. Inl k :: nat + nat) (\<lambda>i. 1 \<le> i) (\<lambda>i. 1 / 2) =
     \<lparr>result = Inl (Some 1), attempts = 2, sleeps = [300]\<rparr> \<and>
   Task.aborted (task_store (apply_ops [Load 0] (apply_op (AbortTask 0) example_system)) 0)"
proof -
  let ?F = "\<lambda>k::nat. Inl k :: nat + nat"
  let ?A = "\<lambda>i::nat. 1 \<le> i"
  let ?R = "\<lambda>i::nat. 1 / 2 :: real"
  have k: "(1::nat) < 4" by simp
  have p: "\<forall>j<1. (\<exists>e. ?F j = Inl e) \<and> \<not> ?A j" by simp
  have f: "?F 1 = Inl 1" by simp
  have a: "?A 1" by simp
  note t = retry_try_rethrows_when_aborted [OF k p f a, of ?R "[Load 0]" 0 example_system]
  have s: "Retry_try ?F ?A ?R = \<lparr>result = Inl (Some 1), attempts = 2, sleeps = [300]\<rparr>"
    using Retry_try_aborted [of 1 ?F ?A 1 ?R] by (simp add: MAX_ATTEMPST_def)
  from t s show ?thesis
    by simp
qed

end
